theory Spec2Isabelle
  imports Complex_Main "HOL-Library.Multiset" "HOL-Library.Log_Nat"
begin

section \<open>The machine model of uniqstr.c\<close>

text \<open>
  The program is C. Its values are modelled as on x86-64 Linux with GCC or Clang (LP64):
  \<^item> \<open>int\<close> is 32 bits wide, two's complement. An \<open>int\<close> is an Isabelle \<open>int\<close>, and
    every addition and multiplication of the source whose result can leave the range is
    wrapped by \<open>int32\<close>. The conversion of a \<open>size_t\<close> to \<open>int\<close> keeps the low 32 bits.
  \<^item> plain \<open>char\<close> is signed: a byte above 127 is a negative number when it is promoted to
    \<open>int\<close> (\<open>schar\<close>). The cast \<open>(unsigned char)\<close> reads the byte as 0..255 (\<open>uchar\<close>).
  \<^item> \<open>%\<close> truncates towards zero (\<open>c_mod\<close>: the result has the sign of the dividend);
    a zero divisor traps.
  \<^item> a pointer is 8 bytes (\<open>sizeof_ptr\<close>).
  \<^item> \<open>float\<close> is IEEE 754 binary32. The conversion of an \<open>int\<close> and the division of two
    floats round to the nearest float, ties to the even significand, and the division is done
    in single precision (SSE arithmetic). A finite float is the rational number it stands for.
  \<^item> a C string is the list of its bytes before the terminating NUL; \<open>strcmp\<close> giving 0 is
    equality of these lists. A pointer that may be \<open>NULL\<close> is an \<open>option\<close>.
  \<^item> reading or writing outside an array, dereferencing \<open>NULL\<close> and dividing by zero are
    undefined behaviour; the model stops there with a \<open>fault\<close>.
\<close>

datatype fault = NullDeref | OutOfBounds | DivByZero

definition int32 :: "int \<Rightarrow> int" where
  "int32 x = (x + 2147483648) mod 4294967296 - 2147483648"

definition c_mod :: "int \<Rightarrow> int \<Rightarrow> int" where
  "c_mod a b = sgn a * (\<bar>a\<bar> mod \<bar>b\<bar>)"

definition schar :: "char \<Rightarrow> int" where
  "schar c = (if (of_char c :: int) < 128 then of_char c else of_char c - 256)"

definition uchar :: "char \<Rightarrow> nat" where
  "uchar c = of_char c"

definition sizeof_ptr :: nat where
  "sizeof_ptr = 8"

subsection \<open>The constants of the source\<close>

definition ASCII_SIZE :: nat where "ASCII_SIZE = 128"
definition HASH_SIZE :: int where "HASH_SIZE = 11"
definition HASH_MAGIC :: int where "HASH_MAGIC = 37"
definition HASH_LOAD_FACTOR :: rat where "HASH_LOAD_FACTOR = 3 / 4"
definition HASH_GROWTH_FACTOR :: int where "HASH_GROWTH_FACTOR = 2"
definition MAX_STRING_SIZE :: int where "MAX_STRING_SIZE = 64"
definition MIN_STRING_SIZE :: int where "MIN_STRING_SIZE = 1"

subsection \<open>The data\<close>

text \<open>
  \<open>Word\<close> and \<open>HashTable\<close> are the two structs. A slot is empty when its \<open>str\<close> is
  \<open>NULL\<close>. The fields \<open>count\<close> of \<open>Word\<close> and \<open>size\<close>, \<open>count\<close> of \<open>HashTable\<close> carry a
  suffix, since \<open>count\<close> and \<open>size\<close> are constants of the library; a parameter
  \<open>size\<close> is written \<open>sz\<close>.
\<close>

record Word =
  str :: "string option"
  count_w :: int

record HashTable =
  dict :: "Word list option"
  size_ht :: int
  count_ht :: int

text \<open>
  \<open>calloc(n, sizeof(Word))\<close>: \<open>n\<close> zeroed slots, or \<open>NULL\<close>. The flag says whether the
  allocator has the memory; \<open>n\<close> is an \<open>int\<close>, a negative \<open>n\<close> becomes a \<open>size_t\<close> too large
  for any allocation, and for \<open>n = 0\<close> the allocator gives a block of no slots, as glibc
  does.
\<close>

definition calloc_Word :: "bool \<Rightarrow> int \<Rightarrow> Word list option" where
  "calloc_Word mem n =
     (if mem \<and> 0 \<le> n \<and> n < 2147483648
      then Some (replicate (nat n) \<lparr>str = None, count_w = 0\<rparr>) else None)"

subsection \<open>createLookupTable\<close>

text \<open>
  The loop runs while \<open>i <= sizeof(illegal)\<close>, and \<open>illegal\<close> is a pointer there: nine
  rounds, whatever the array holds. The array is given by its elements; a read past its
  end and a write past the 128 entries of the table are faults.
\<close>

function createLookupTable_for :: "char list \<Rightarrow> int list \<Rightarrow> nat \<Rightarrow> fault + int list" where
  "createLookupTable_for illegal lookup i =
     (if i \<le> sizeof_ptr then
        (if length illegal \<le> i then Inl OutOfBounds
         else if length lookup \<le> uchar (illegal ! i) then Inl OutOfBounds
         else createLookupTable_for illegal (lookup[uchar (illegal ! i) := 1]) (i + 1))
      else Inr lookup)"
  by pat_completeness auto
termination
  by (relation "measure (\<lambda>(illegal, lookup, i). Suc sizeof_ptr - i)") auto

definition createLookupTable :: "bool \<Rightarrow> char list \<Rightarrow> fault + int list option" where
  "createLookupTable mem illegal =
     (if \<not> mem then Inr None
      else case createLookupTable_for illegal (replicate ASCII_SIZE 0) 0 of
             Inl e \<Rightarrow> Inl e
           | Inr lookup \<Rightarrow> Inr (Some lookup))"

subsection \<open>hash\<close>

fun hash_for :: "int \<Rightarrow> string \<Rightarrow> int \<Rightarrow> fault + int" where
  "hash_for h [] sz = Inr h"
| "hash_for h (c # cs) sz =
     (if sz = 0 then Inl DivByZero
      else hash_for (c_mod (int32 (int32 (h * HASH_MAGIC) + schar c)) sz) cs sz)"

definition hash :: "string \<Rightarrow> int \<Rightarrow> fault + int" where
  "hash s sz = hash_for 0 s sz"

subsection \<open>createHashTable, checkString, checkSize\<close>

text \<open>The two flags are the outcomes of \<open>malloc\<close> and of \<open>calloc\<close>.\<close>

definition createHashTable :: "bool \<Rightarrow> bool \<Rightarrow> int \<Rightarrow> HashTable option" where
  "createHashTable mem_ht mem_dict sz =
     (if \<not> mem_ht then None
      else case calloc_Word mem_dict sz of
             None \<Rightarrow> None
           | Some d \<Rightarrow> Some \<lparr>dict = Some d, size_ht = sz, count_ht = 0\<rparr>)"

definition checkString :: "string option \<Rightarrow> int" where
  "checkString p =
     (case p of
        None \<Rightarrow> - 1
      | Some s \<Rightarrow>
          (let SIZE = int32 (int (length s))
           in if SIZE < MIN_STRING_SIZE \<or> SIZE > MAX_STRING_SIZE then - 1 else 0))"

definition checkSize :: "int \<Rightarrow> int" where
  "checkSize sz = (if sz < 1 then - 1 else sz)"

subsection \<open>Single precision\<close>

text \<open>
  \<open>ilog2 x\<close> is the exponent of the leading bit of a positive \<open>x\<close>, the floor of its binary
  logarithm. \<open>round_even\<close> rounds to the nearest integer, a tie to the even one.
  \<open>round32 x\<close> is the binary32 value nearest to \<open>x\<close>: 24 significant bits, counted from the
  leading bit, or in units of \<open>2^-149\<close> below \<open>2^-126\<close> (the subnormal numbers). A value that
  rounds to \<open>2^128\<close> or beyond is infinite (\<open>to_float\<close>). \<open>int_to_float\<close> is the cast
  \<open>(float)\<close> of an \<open>int\<close>, always finite. \<open>fdiv\<close> is the quotient of two finite floats, with
  the results of a division by zero; a zero quotient is \<open>Fin 0\<close> whatever its sign.
  \<open>flt_gt\<close> is \<open>>\<close> against a constant: no comparison with a NaN holds.
\<close>

datatype flt = Fin rat | PInf | NInf | NaN

definition ilog2 :: "rat \<Rightarrow> int" where
  "ilog2 x = (if 1 \<le> x then bitlen \<lfloor>x\<rfloor> - 1 else - bitlen (\<lceil>1 / x\<rceil> - 1))"

definition round_even :: "rat \<Rightarrow> int" where
  "round_even r =
     (let f = \<lfloor>r\<rfloor>
      in if r - of_int f < 1 / 2 then f
         else if 1 / 2 < r - of_int f then f + 1
         else if even f then f else f + 1)"

definition ulp32 :: "rat \<Rightarrow> rat" where
  "ulp32 x = 2 powi (max (ilog2 \<bar>x\<bar>) (- 126) - 23)"

definition round32 :: "rat \<Rightarrow> rat" where
  "round32 x = (if x = 0 then 0 else of_int (round_even (x / ulp32 x)) * ulp32 x)"

definition to_float :: "rat \<Rightarrow> flt" where
  "to_float x =
     (let r = round32 x
      in if 2 ^ 128 \<le> r then PInf else if r \<le> - (2 ^ 128) then NInf else Fin r)"

definition int_to_float :: "int \<Rightarrow> rat" where
  "int_to_float i = round32 (of_int i)"

definition fdiv :: "rat \<Rightarrow> rat \<Rightarrow> flt" where
  "fdiv a b =
     (if b = 0 then (if 0 < a then PInf else if a < 0 then NInf else NaN)
      else to_float (a / b))"

fun flt_gt :: "flt \<Rightarrow> rat \<Rightarrow> bool" where
  "flt_gt (Fin q) r = (r < q)"
| "flt_gt PInf r = True"
| "flt_gt NInf r = False"
| "flt_gt NaN r = False"

subsection \<open>recalcLoadFactor\<close>

text \<open>
  \<open>(float)(ht->count + 1) / ht->size\<close>: the sum is an \<open>int\<close>, both operands are converted to
  \<open>float\<close> and divided in single precision. \<open>addString\<close> compares the result with the
  \<open>double\<close> 0.75, which is exact. With a null table \<open>handleError\<close> writes to \<open>stderr\<close>,
  which the model does not keep, and the result is -1.
\<close>

definition recalcLoadFactor :: "HashTable option \<Rightarrow> flt" where
  "recalcLoadFactor p =
     (case p of
        None \<Rightarrow> Fin (- 1)
      | Some ht \<Rightarrow> fdiv (int_to_float (int32 (count_ht ht + 1))) (int_to_float (size_ht ht)))"

subsection \<open>growHashTable\<close>

text \<open>
  The inner \<open>while\<close> may run for ever on a full store, so it is a partial function:
  \<open>None\<close> is a run that does not return. The outer \<open>for\<close> counts \<open>i\<close> up to the old size;
  \<open>i + 1\<close> stays below it and cannot overflow. The result of \<open>calloc\<close> is not tested by
  the source: with \<open>NULL\<close> the first entry moved is written through a null pointer.
\<close>

partial_function (option) growHashTable_while ::
    "Word list \<Rightarrow> int \<Rightarrow> int \<Rightarrow> (fault + int) option" where
  "growHashTable_while new_dict new_size index =
     (if index < 0 \<or> int (length new_dict) \<le> index then Some (Inl OutOfBounds)
      else if str (new_dict ! nat index) = None then Some (Inr index)
      else if new_size = 0 then Some (Inl DivByZero)
      else growHashTable_while new_dict new_size (c_mod (int32 (index + 1)) new_size))"

declare growHashTable_while.simps [code]

function growHashTable_for ::
    "HashTable \<Rightarrow> int \<Rightarrow> Word list option \<Rightarrow> int \<Rightarrow> (fault + Word list option) option" where
  "growHashTable_for ht new_size new_dict i =
     (if i < size_ht ht then
        (case dict ht of
           None \<Rightarrow> Some (Inl NullDeref)
         | Some d \<Rightarrow>
             if i < 0 \<or> int (length d) \<le> i then Some (Inl OutOfBounds)
             else
               (case str (d ! nat i) of
                  None \<Rightarrow> growHashTable_for ht new_size new_dict (i + 1)
                | Some s \<Rightarrow>
                    (case hash s new_size of
                       Inl e \<Rightarrow> Some (Inl e)
                     | Inr index \<Rightarrow>
                         (case new_dict of
                            None \<Rightarrow> Some (Inl NullDeref)
                          | Some nd \<Rightarrow>
                              (case growHashTable_while nd new_size index of
                                 None \<Rightarrow> None
                               | Some (Inl e) \<Rightarrow> Some (Inl e)
                               | Some (Inr j) \<Rightarrow>
                                   growHashTable_for ht new_size
                                     (Some (nd[nat j := \<lparr>str = Some s, count_w = count_w (d ! nat i)\<rparr>]))
                                     (i + 1))))))
      else Some (Inr new_dict))"
  by pat_completeness auto
termination
  by (relation "measure (\<lambda>(ht, new_size, new_dict, i). nat (size_ht ht - i))") auto

text \<open>The result pairs the \<open>int\<close> that \<open>growHashTable\<close> returns with the table it leaves.\<close>

definition growHashTable :: "bool \<Rightarrow> HashTable \<Rightarrow> (fault + int \<times> HashTable) option" where
  "growHashTable mem ht =
     (let new_size = int32 (size_ht ht * HASH_GROWTH_FACTOR);
          new_dict = calloc_Word mem new_size
      in case growHashTable_for ht new_size new_dict 0 of
           None \<Rightarrow> None
         | Some (Inl e) \<Rightarrow> Some (Inl e)
         | Some (Inr nd) \<Rightarrow> Some (Inr (0, ht\<lparr>dict := nd, size_ht := new_size\<rparr>)))"

subsection \<open>addString\<close>

text \<open>
  The \<open>do ... while\<close> of \<open>addString\<close>. It ends at an empty slot (the string is stored with
  count 1), at a slot with an equal string (its count goes up), or when the index is back
  at the start: then \<open>handleError\<close> writes to \<open>stderr\<close>, which the model does not keep, and
  the table is returned as it is. \<open>strdup\<close> is taken to succeed.
\<close>

partial_function (option) addString_do ::
    "HashTable \<Rightarrow> string \<Rightarrow> int \<Rightarrow> int \<Rightarrow> (fault + HashTable) option" where
  "addString_do ht s start_index index =
     (case dict ht of
        None \<Rightarrow> Some (Inl NullDeref)
      | Some d \<Rightarrow>
          if index < 0 \<or> int (length d) \<le> index then Some (Inl OutOfBounds)
          else
            (case str (d ! nat index) of
               None \<Rightarrow>
                 Some (Inr (ht\<lparr>dict := Some (d[nat index := \<lparr>str = Some s, count_w = 1\<rparr>]),
                              count_ht := int32 (count_ht ht + 1)\<rparr>))
             | Some t \<Rightarrow>
                 if t = s then
                   Some (Inr (ht\<lparr>dict := Some (d[nat index :=
                     (d ! nat index)\<lparr>count_w := int32 (count_w (d ! nat index) + 1)\<rparr>])\<rparr>))
                 else if size_ht ht = 0 then Some (Inl DivByZero)
                 else if c_mod (int32 (index + 1)) (size_ht ht) \<noteq> start_index
                   then addString_do ht s start_index (c_mod (int32 (index + 1)) (size_ht ht))
                 else Some (Inr ht)))"

declare addString_do.simps [code]

text \<open>
  \<open>addString\<close> on the table pointer and the string pointer; \<open>mem\<close> is the outcome of the
  \<open>calloc\<close> in \<open>growHashTable\<close>, should the table grow. With a null table
  \<open>recalcLoadFactor\<close> gives \<open>-1\<close>, nothing grows and \<open>ht->size\<close> is read through \<open>NULL\<close>.
\<close>

definition addString :: "bool \<Rightarrow> HashTable option \<Rightarrow> string option \<Rightarrow> (fault + HashTable) option" where
  "addString mem p sp =
     (case p of
        None \<Rightarrow> Some (Inl NullDeref)
      | Some ht \<Rightarrow>
          (case (if flt_gt (recalcLoadFactor (Some ht)) HASH_LOAD_FACTOR
                 then map_option (map_sum id snd) (growHashTable mem ht)
                 else Some (Inr ht)) of
             None \<Rightarrow> None
           | Some (Inl e) \<Rightarrow> Some (Inl e)
           | Some (Inr ht1) \<Rightarrow>
               (case sp of
                  None \<Rightarrow> Some (Inl NullDeref)
                | Some s \<Rightarrow>
                    (case hash s (size_ht ht1) of
                       Inl e \<Rightarrow> Some (Inl e)
                     | Inr index \<Rightarrow> addString_do ht1 s index index))))"

text \<open>A run of insertions, as \<open>main\<close> makes them: one call after the other on the same table.\<close>

fun addStrings :: "HashTable \<Rightarrow> string list \<Rightarrow> (fault + HashTable) option" where
  "addStrings ht [] = Some (Inr ht)"
| "addStrings ht (s # ss) =
     (case addString True (Some ht) (Some s) of
        Some (Inr ht1) \<Rightarrow> addStrings ht1 ss
      | r \<Rightarrow> r)"

declare growHashTable_for.simps [simp del]

declare createLookupTable_for.simps [simp del]

section \<open>The notions of the specification\<close>

text \<open>
  A string of 7-bit characters: every byte is below 128, so that the signed and the
  unsigned reading of it agree.
\<close>

definition seven_bit :: "string \<Rightarrow> bool" where
  "seven_bit s = (\<forall>c\<in>set s. (of_char c :: int) < 128)"

text \<open>
  The hash in the words of the specification: the accumulator starts at 0 and every
  character in turn sets it to (accumulator * 37 + character code) mod capacity, with the
  mathematical \<open>mod\<close> and the code of the character, 0 to 255.
\<close>

definition rolling_hash :: "string \<Rightarrow> int \<Rightarrow> int" where
  "rolling_hash s capacity = foldl (\<lambda>acc c. (acc * 37 + of_char c) mod capacity) 0 s"

text \<open>
  The (string, count) pairs of the occupied slots in slot order, and their strings.
\<close>

definition entries :: "Word list \<Rightarrow> (string \<times> int) list" where
  "entries d = List.map_filter (\<lambda>w. map_option (\<lambda>s. (s, count_w w)) (str w)) d"

definition keys_of :: "Word list \<Rightarrow> string list" where
  "keys_of d = map fst (entries d)"

text \<open>
  \<open>probe n h k\<close> is the slot that linear probing reaches after \<open>k\<close> steps from \<open>h\<close> in a
  store of \<open>n\<close> slots. A store is \<open>chained\<close> when every entry lies on the probe sequence
  of its own hash, taken against the length of the store, and no slot before it on that
  sequence is empty: each entry is where hashing and probing to the first empty slot put it.
\<close>

definition probe :: "nat \<Rightarrow> int \<Rightarrow> nat \<Rightarrow> nat" where
  "probe n h k = nat ((h + int k) mod int n)"

definition chained :: "Word list \<Rightarrow> bool" where
  "chained d =
     (\<forall>i\<in>{..<length d}.
        case str (d ! i) of
          None \<Rightarrow> True
        | Some t \<Rightarrow>
            (case hash t (int (length d)) of
               Inl e \<Rightarrow> False
             | Inr h \<Rightarrow>
                 0 \<le> h \<and> h < int (length d) \<and>
                 (\<forall>j\<in>{..<nat ((int i - h) mod int (length d))}.
                    str (d ! probe (length d) h j) \<noteq> None)))"

text \<open>
  The invariant of a table: the store has \<open>size\<close> slots, \<open>size\<close> is a positive \<open>int\<close>,
  \<open>count\<close> is the number of the occupied slots, no string occurs twice, the store is
  chained. \<open>well_formed\<close> is its first half, which every table that the functions return
  has, whatever the strings.
\<close>

definition well_formed :: "HashTable \<Rightarrow> bool" where
  "well_formed ht =
     (case dict ht of
        None \<Rightarrow> False
      | Some d \<Rightarrow>
          0 < size_ht ht \<and> size_ht ht < 2147483648 \<and> int (length d) = size_ht ht \<and>
          count_ht ht = int (length (entries d)))"

definition table_inv :: "HashTable \<Rightarrow> bool" where
  "table_inv ht =
     (case dict ht of
        None \<Rightarrow> False
      | Some d \<Rightarrow>
          0 < size_ht ht \<and> int (length d) = size_ht ht \<and>
          count_ht ht = int (length (entries d)) \<and>
          distinct (keys_of d) \<and> size_ht ht < 2147483648 \<and> chained d)"





text \<open>
  The tables of the driver's runs. \<open>main\<close> creates the table with \<open>HASH_SIZE\<close> slots
  (\<open>table0\<close>). \<open>table3\<close> is what "hello", "world", "hello", "world", "aaaaa" leave,
  \<open>table8\<close> what "aaaaa" to "hhhhh" leave; \<open>table9\<close> and \<open>table8_again\<close> are \<open>table8\<close>
  after one more call, with "iiiii" and with "aaaaa". \<open>table_high\<close> holds a string of the
  two bytes 0x80 0x7F, \<open>table_high8\<close> that string and "aaaaa" to "ggggg". \<open>table_a c\<close>
  holds "a" with the count \<open>c\<close>.
\<close>

abbreviation empty_slot :: Word where
  "empty_slot \<equiv> \<lparr>str = None, count_w = 0\<rparr>"

abbreviation slot :: "string \<Rightarrow> int \<Rightarrow> Word" where
  "slot s c \<equiv> \<lparr>str = Some s, count_w = c\<rparr>"

definition table0 :: HashTable where
  "table0 = \<lparr>dict = Some (replicate 11 empty_slot), size_ht = 11, count_ht = 0\<rparr>"

definition table3 :: HashTable where
  "table3 = \<lparr>dict = Some ([slot ''aaaaa'' 1] @ replicate 4 empty_slot @
      [slot ''hello'' 2, slot ''world'' 2] @ replicate 4 empty_slot),
    size_ht = 11, count_ht = 3\<rparr>"

definition table8 :: HashTable where
  "table8 = \<lparr>dict = Some ([slot ''aaaaa'' 1, slot ''bbbbb'' 1, slot ''ccccc'' 1, slot ''ddddd'' 1,
      slot ''eeeee'' 1, slot ''fffff'' 1, slot ''ggggg'' 1, slot ''hhhhh'' 1] @ replicate 3 empty_slot),
    size_ht = 11, count_ht = 8\<rparr>"

definition table8_again :: HashTable where
  "table8_again = \<lparr>dict = Some ([slot ''bbbbb'' 1, slot ''ddddd'' 1, slot ''fffff'' 1, slot ''hhhhh'' 1]
      @ replicate 7 empty_slot @
      [slot ''aaaaa'' 2, slot ''ccccc'' 1, slot ''eeeee'' 1, slot ''ggggg'' 1] @ replicate 7 empty_slot),
    size_ht = 22, count_ht = 8\<rparr>"


definition table_high :: HashTable where
  "table_high = \<lparr>dict = Some ([slot [CHR 0x80, CHR 0x7F] 1] @ replicate 10 empty_slot),
    size_ht = 11, count_ht = 1\<rparr>"

definition table_high8 :: HashTable where
  "table_high8 = \<lparr>dict = Some ([slot [CHR 0x80, CHR 0x7F] 1, slot ''aaaaa'' 1, slot ''bbbbb'' 1,
      slot ''ccccc'' 1, slot ''ddddd'' 1, slot ''eeeee'' 1, slot ''fffff'' 1, slot ''ggggg'' 1]
      @ replicate 3 empty_slot),
    size_ht = 11, count_ht = 8\<rparr>"



section \<open>Single precision arithmetic\<close>

lemma rat_pow_le_of_int: "2 ^ k \<le> n \<Longrightarrow> (2::rat) ^ k \<le> of_int n"
  using of_int_le_iff [of "2 ^ k" n, where ?'a = rat] by simp

lemma rat_of_int_less_pow: "n < 2 ^ k \<Longrightarrow> (of_int n :: rat) + 1 \<le> 2 ^ k"
proof -
  assume "n < 2 ^ k"
  then have "n + 1 \<le> 2 ^ k" by simp
  then show ?thesis using of_int_le_iff [of "n + 1" "2 ^ k", where ?'a = rat] by simp
qed

lemma bitlen_Suc:
  assumes "0 < n"
  shows "\<exists>k. bitlen n = int k + 1 \<and> 2 ^ k \<le> n \<and> n < 2 ^ Suc k"
proof -
  define k where "k = nat (bitlen n - 1)"
  have "bitlen n \<noteq> 0" using assms bitlen_eq_zero_iff [of n] by simp
  then have bl: "bitlen n = int k + 1"
    using bitlen_nonneg [of n] by (simp add: k_def)
  have s: "nat (bitlen n) = Suc k" using bl by simp
  have "2 ^ nat (bitlen n - 1) \<le> n \<and> n < 2 ^ nat (bitlen n)"
    using assms by (rule bitlen_bounds)
  then have "2 ^ k \<le> n \<and> n < 2 ^ Suc k"
    unfolding s k_def [symmetric] .
  then show ?thesis using bl by blast
qed

lemma ilog2_bounds:
  assumes "0 < x"
  shows "2 powi ilog2 x \<le> x" and "x < 2 powi (ilog2 x + 1)"
proof -
  have "2 powi ilog2 x \<le> x \<and> x < 2 powi (ilog2 x + 1)"
  proof (cases "1 \<le> x")
    case True
    define n where "n = \<lfloor>x\<rfloor>"
    have n: "0 < n" "of_int n \<le> x" "x < of_int n + 1"
      using True unfolding n_def by linarith+
    obtain k where k: "bitlen n = int k + 1" "2 ^ k \<le> n" "n < 2 ^ Suc k"
      using bitlen_Suc [OF n(1)] by blast
    have e: "ilog2 x = int k" using True by (simp add: ilog2_def n_def [symmetric] k(1))
    have "(2::rat) ^ k \<le> x" using rat_pow_le_of_int [OF k(2)] n(2) by (rule order_trans)
    moreover have "x < 2 ^ Suc k" using n(3) rat_of_int_less_pow [OF k(3)] by (rule less_le_trans)
    moreover have "(2::rat) powi (int k + 1) = 2 ^ Suc k"
      by (simp add: power_int_add)
    ultimately show ?thesis unfolding e by simp
  next
    case False
    define y where "y = 1 / x"
    have y: "1 < y" "0 < y" "x = 1 / y" using False assms by (simp_all add: y_def)
    define m where "m = \<lceil>y\<rceil> - 1"
    have m: "0 < m" "of_int m < y" "y \<le> of_int m + 1"
      using y(1) unfolding m_def by linarith+
    obtain k where k: "bitlen m = int k + 1" "2 ^ k \<le> m" "m < 2 ^ Suc k"
      using bitlen_Suc [OF m(1)] by blast
    have e: "ilog2 x = - (int k + 1)"
      using False by (simp add: ilog2_def y_def [symmetric] m_def [symmetric] k(1))
    have lo: "(2::rat) ^ k < y" using rat_pow_le_of_int [OF k(2)] m(2) by (rule le_less_trans)
    have hi: "y \<le> 2 ^ Suc k" using m(3) rat_of_int_less_pow [OF k(3)] by (rule order_trans)
    have p1: "(2::rat) powi (- (int k + 1)) = 1 / 2 ^ Suc k"
      by (simp add: power_int_def nat_add_distrib inverse_eq_divide power_divide)
    have p2: "(2::rat) powi (- (int k + 1) + 1) = 1 / 2 ^ k"
      by (simp add: power_int_def inverse_eq_divide power_divide)
    have "1 / 2 ^ Suc k \<le> 1 / y" using hi y(2) by (intro divide_left_mono) simp_all
    then have "1 / 2 ^ Suc k \<le> x" by (simp only: y(3))
    moreover have "1 / y < 1 / 2 ^ k" using lo y(2) by (intro divide_strict_left_mono) simp_all
    then have "x < 1 / 2 ^ k" by (simp only: y(3))
    ultimately show ?thesis unfolding e p1 p2 by blast
  qed
  then show "2 powi ilog2 x \<le> x" and "x < 2 powi (ilog2 x + 1)" by simp_all
qed


lemma ilog2_mono:
  assumes "0 < x" "x \<le> y"
  shows "ilog2 x \<le> ilog2 y"
proof (rule ccontr)
  assume "\<not> ilog2 x \<le> ilog2 y"
  then have "ilog2 y + 1 \<le> ilog2 x" by simp
  then have "(2::rat) powi (ilog2 y + 1) \<le> 2 powi ilog2 x"
    by (intro power_int_increasing) simp_all
  moreover have "y < 2 powi (ilog2 y + 1)" using assms by (intro ilog2_bounds) simp
  moreover have "2 powi ilog2 x \<le> x" using assms(1) by (rule ilog2_bounds)
  ultimately show False using assms(2) by linarith
qed

lemma round_even_of_int: "round_even (of_int k) = k"
  by (simp add: round_even_def)

lemma round_even_lower: "\<lfloor>r\<rfloor> \<le> round_even r"
  by (simp add: round_even_def Let_def)

lemma round_even_upper: "round_even r \<le> \<lfloor>r\<rfloor> + 1"
  by (simp add: round_even_def Let_def)

lemma round_even_ge: "of_int k \<le> r \<Longrightarrow> k \<le> round_even r"
  using round_even_lower [of r] le_floor_iff [of k r] by linarith

lemma round_even_le:
  assumes "r \<le> of_int k"
  shows "round_even r \<le> k"
proof (cases "r = of_int k")
  case True
  then show ?thesis by (simp add: round_even_of_int)
next
  case False
  then have "r < of_int k" using assms by simp
  then have "\<lfloor>r\<rfloor> < k" by (simp add: floor_less_iff)
  then show ?thesis using round_even_upper [of r] by linarith
qed

lemma round_even_frac:
  "round_even r = (if r - of_int \<lfloor>r\<rfloor> < 1 / 2 then \<lfloor>r\<rfloor>
     else if 1 / 2 < r - of_int \<lfloor>r\<rfloor> then \<lfloor>r\<rfloor> + 1
     else if even \<lfloor>r\<rfloor> then \<lfloor>r\<rfloor> else \<lfloor>r\<rfloor> + 1)"
  by (simp add: round_even_def Let_def)

lemma round_even_mono:
  assumes "r \<le> s"
  shows "round_even r \<le> round_even s"
proof (cases "\<lfloor>r\<rfloor> = \<lfloor>s\<rfloor>")
  case True
  define f where "f = \<lfloor>r\<rfloor>"
  have fs: "\<lfloor>s\<rfloor> = f" using True by (simp add: f_def)
  have le: "r - of_int f \<le> s - of_int f" using assms by simp
  consider "s - of_int f < 1 / 2" | "s - of_int f = 1 / 2" | "1 / 2 < s - of_int f"
    by linarith
  then show ?thesis
  proof cases
    case 1
    then have "r - of_int f < 1 / 2" using le by linarith
    then show ?thesis using 1 by (simp add: round_even_frac fs f_def [symmetric])
  next
    case 2
    then have "r - of_int f < 1 / 2 \<or> r - of_int f = 1 / 2" using le by linarith
    then show ?thesis using 2 by (auto simp add: round_even_frac fs f_def [symmetric])
  next
    case 3
    then have "round_even s = f + 1" by (simp add: round_even_frac fs)
    then show ?thesis using round_even_upper [of r] by (simp add: f_def)
  qed
next
  case False
  have "\<lfloor>r\<rfloor> \<le> \<lfloor>s\<rfloor>" using assms by (rule floor_mono)
  then have "\<lfloor>r\<rfloor> < \<lfloor>s\<rfloor>" using False by simp
  then show ?thesis using round_even_upper [of r] round_even_lower [of s] by linarith
qed

lemma round_even_minus: "round_even (- r) = - round_even r"
proof (cases "r = of_int \<lfloor>r\<rfloor>")
  case True
  then obtain k where k: "r = of_int k" by blast
  then have "round_even (- r) = round_even (of_int (- k))" by simp
  then show ?thesis unfolding k by (simp only: round_even_of_int)
next
  case False
  define f where "f = \<lfloor>r\<rfloor>"
  define t where "t = r - of_int f"
  have t: "0 < t" "t < 1" using False unfolding t_def f_def by linarith+
  have r: "r = of_int f + t" by (simp add: t_def)
  have fm: "\<lfloor>- r\<rfloor> = - f - 1"
    unfolding r using t by (intro floor_unique) simp_all
  have tm: "- r - of_int (- f - 1) = 1 - t" by (simp add: r)
  have a: "round_even r = (if t < 1 / 2 then f else if 1 / 2 < t then f + 1
      else if even f then f else f + 1)"
    unfolding round_even_frac f_def [symmetric] t_def [symmetric] by (rule refl)
  have b: "round_even (- r) = (if 1 - t < 1 / 2 then - f - 1 else if 1 / 2 < 1 - t then - f
      else if even (- f - 1) then - f - 1 else - f)"
    unfolding round_even_frac fm tm by simp
  consider "t < 1 / 2" | "t = 1 / 2" | "1 / 2 < t" by linarith
  then show ?thesis
  proof cases
    case 1
    then show ?thesis unfolding a b by simp
  next
    case 2
    then show ?thesis unfolding a b by simp
  next
    case 3
    then show ?thesis unfolding a b by simp
  qed
qed

lemma ulp32_pos: "0 < ulp32 x"
  by (simp add: ulp32_def)

lemma ulp32_minus: "ulp32 (- x) = ulp32 x"
  by (simp add: ulp32_def)

lemma round32_minus: "round32 (- x) = - round32 x"
  by (simp add: round32_def ulp32_minus round_even_minus)

lemma round32_0: "round32 0 = 0"
  by (simp add: round32_def)

lemma round32_nonneg:
  assumes "0 \<le> x"
  shows "0 \<le> round32 x"
proof -
  have "of_int 0 \<le> x / ulp32 x" using assms ulp32_pos [of x] by simp
  then have "0 \<le> round_even (x / ulp32 x)" by (rule round_even_ge)
  then show ?thesis using ulp32_pos [of x] by (simp add: round32_def)
qed

lemma ulp32_scale:
  shows "2 powi (max (ilog2 \<bar>x\<bar>) (- 126) + 1) = 2 ^ 24 * ulp32 x"
    and "2 powi (max (ilog2 \<bar>x\<bar>) (- 126)) = 2 ^ 23 * ulp32 x"
proof -
  define E where "E = max (ilog2 \<bar>x\<bar>) (- 126)"
  have "(2::rat) powi (E + 1) = 2 ^ 24 * 2 powi (E - 23)"
    using power_int_add [of "2::rat" 24 "E - 23"] by (simp add: algebra_simps)
  moreover have "(2::rat) powi E = 2 ^ 23 * 2 powi (E - 23)"
    using power_int_add [of "2::rat" 23 "E - 23"] by (simp add: algebra_simps)
  ultimately show "2 powi (max (ilog2 \<bar>x\<bar>) (- 126) + 1) = 2 ^ 24 * ulp32 x"
    and "2 powi (max (ilog2 \<bar>x\<bar>) (- 126)) = 2 ^ 23 * ulp32 x"
    by (simp_all add: ulp32_def E_def)
qed

lemma round32_le_pow:
  assumes "0 < x"
  shows "round32 x \<le> 2 powi (max (ilog2 x) (- 126) + 1)"
proof -
  have ax: "\<bar>x\<bar> = x" using assms by simp
  have "x < 2 powi (ilog2 x + 1)" using assms by (rule ilog2_bounds)
  also have "\<dots> \<le> 2 powi (max (ilog2 x) (- 126) + 1)"
    by (intro power_int_increasing) simp_all
  also have "\<dots> = 2 ^ 24 * ulp32 x" using ulp32_scale(1) [of x] by (simp only: ax)
  finally have "x / ulp32 x \<le> of_int (2 ^ 24)"
    using ulp32_pos [of x] by (simp add: pos_divide_le_eq)
  then have "round_even (x / ulp32 x) \<le> 2 ^ 24" by (rule round_even_le)
  then have "of_int (round_even (x / ulp32 x)) \<le> (2 ^ 24 :: rat)"
    using of_int_le_iff [of "round_even (x / ulp32 x)" "2 ^ 24", where ?'a = rat] by simp
  then have "of_int (round_even (x / ulp32 x)) * ulp32 x \<le> 2 ^ 24 * ulp32 x"
    using ulp32_pos [of x] by (intro mult_right_mono) simp_all
  then show ?thesis using assms ulp32_scale(1) [of x] by (simp add: round32_def ax)
qed

lemma round32_ge_pow:
  assumes "0 < x" "- 126 \<le> ilog2 x"
  shows "2 powi ilog2 x \<le> round32 x"
proof -
  have ax: "\<bar>x\<bar> = x" using assms by simp
  have m: "max (ilog2 x) (- 126) = ilog2 x" using assms(2) by simp
  have "2 ^ 23 * ulp32 x = 2 powi ilog2 x" using ulp32_scale(2) [of x] by (simp only: ax m)
  also have "\<dots> \<le> x" using assms(1) by (rule ilog2_bounds)
  finally have "of_int (2 ^ 23) \<le> x / ulp32 x"
    using ulp32_pos [of x] by (simp add: pos_le_divide_eq)
  then have "2 ^ 23 \<le> round_even (x / ulp32 x)" by (rule round_even_ge)
  then have "(2 ^ 23 :: rat) \<le> of_int (round_even (x / ulp32 x))"
    using of_int_le_iff [of "2 ^ 23" "round_even (x / ulp32 x)", where ?'a = rat] by simp
  then have "2 ^ 23 * ulp32 x \<le> of_int (round_even (x / ulp32 x)) * ulp32 x"
    using ulp32_pos [of x] by (intro mult_right_mono) simp_all
  then show ?thesis using assms ulp32_scale(2) [of x] by (simp add: round32_def ax m)
qed

lemma round32_mono_pos:
  assumes "0 < x" "x \<le> y"
  shows "round32 x \<le> round32 y"
proof -
  have y: "0 < y" using assms by simp
  have ax: "\<bar>x\<bar> = x" "\<bar>y\<bar> = y" using assms by simp_all
  define Ex where "Ex = max (ilog2 x) (- 126)"
  define Ey where "Ey = max (ilog2 y) (- 126)"
  have le: "Ex \<le> Ey" using ilog2_mono [OF assms] by (simp add: Ex_def Ey_def)
  show ?thesis
  proof (cases "Ex = Ey")
    case True
    then have u: "ulp32 x = ulp32 y" by (simp add: ulp32_def ax Ex_def Ey_def)
    have "x / ulp32 y \<le> y / ulp32 y"
      using assms(2) ulp32_pos [of y] by (simp add: divide_right_mono)
    then have "round_even (x / ulp32 y) \<le> round_even (y / ulp32 y)" by (rule round_even_mono)
    then have "(of_int (round_even (x / ulp32 y)) :: rat) \<le> of_int (round_even (y / ulp32 y))"
      by simp
    then have "of_int (round_even (x / ulp32 y)) * ulp32 y
        \<le> of_int (round_even (y / ulp32 y)) * ulp32 y"
      using ulp32_pos [of y] by (intro mult_right_mono) simp_all
    then show ?thesis using assms y by (simp add: round32_def u)
  next
    case False
    then have lt: "Ex + 1 \<le> Ey" using le by simp
    have "- 126 \<le> Ex" by (simp add: Ex_def)
    then have ey: "Ey = ilog2 y" "- 126 \<le> ilog2 y" using lt by (simp_all add: Ey_def)
    have "round32 x \<le> 2 powi (Ex + 1)" using round32_le_pow [OF assms(1)] by (simp add: Ex_def)
    also have "\<dots> \<le> 2 powi Ey" using lt by (intro power_int_increasing) simp_all
    also have "\<dots> \<le> round32 y" using round32_ge_pow [OF y ey(2)] by (simp add: ey(1))
    finally show ?thesis .
  qed
qed

lemma round32_mono:
  assumes "x \<le> y"
  shows "round32 x \<le> round32 y"
proof -
  consider "0 < x" | "x \<le> 0" "0 \<le> y" | "y < 0" by linarith
  then show ?thesis
  proof cases
    case 1
    then show ?thesis using assms by (rule round32_mono_pos)
  next
    case 2
    have "round32 x = - round32 (- x)" by (simp add: round32_minus)
    moreover have "0 \<le> round32 (- x)" using 2(1) by (intro round32_nonneg) simp
    moreover have "0 \<le> round32 y" using 2(2) by (rule round32_nonneg)
    ultimately show ?thesis by linarith
  next
    case 3
    have "round32 (- y) \<le> round32 (- x)" using 3 assms by (intro round32_mono_pos) simp_all
    then show ?thesis by (simp add: round32_minus)
  qed
qed

lemma round32_of_int_pos:
  assumes "0 < a" "a < 2 ^ 24"
  shows "round32 (of_int a) = of_int a"
proof -
  define x :: rat where "x = of_int a"
  have x: "0 < x" "1 \<le> x" "x < 2 ^ 24"
    using assms of_int_less_iff [of a "2 ^ 24", where ?'a = rat] by (simp_all add: x_def)
  have ax: "\<bar>x\<bar> = x" using x by simp
  define e where "e = ilog2 x"
  have "(2::rat) powi e \<le> x" unfolding e_def using x(1) by (rule ilog2_bounds)
  then have "(2::rat) powi e < 2 powi 24" using x(3) by simp
  then have hi: "e < 24" by (rule power_int_le_imp_less_exp [rotated]) simp_all
  have "x < 2 powi (e + 1)" unfolding e_def using x(1) by (rule ilog2_bounds)
  then have "(2::rat) powi 0 < 2 powi (e + 1)" using x(2) by simp
  then have lo: "0 \<le> e"
    using power_int_increasing [of "e + 1" 0 "2::rat"] by (cases "0 \<le> e") auto
  define k where "k = nat (23 - e)"
  have u: "ulp32 x = 1 / 2 ^ k"
  proof -
    have "max e (- 126) - 23 = - int k" using lo hi by (simp add: k_def)
    then have "ulp32 x = 2 powi (- int k)" by (simp add: ulp32_def ax e_def)
    then show ?thesis by (simp add: power_int_minus_divide)
  qed
  have "x / ulp32 x = x * 2 ^ k" by (simp add: u)
  also have "\<dots> = of_int (a * 2 ^ k)" by (simp add: x_def)
  finally have "x / ulp32 x = of_int (a * 2 ^ k)" .
  then have "round_even (x / ulp32 x) = a * 2 ^ k" by (simp only: round_even_of_int)
  then have "round32 x = of_int (a * 2 ^ k) * (1 / 2 ^ k)" using x(1) by (simp add: round32_def u)
  then show ?thesis by (simp add: x_def)
qed

lemma round32_of_int:
  assumes "\<bar>a\<bar> < 2 ^ 24"
  shows "round32 (of_int a) = of_int a"
proof -
  consider "0 < a" | "a = 0" | "a < 0" by linarith
  then show ?thesis
  proof cases
    case 1
    then show ?thesis using assms by (intro round32_of_int_pos) simp_all
  next
    case 2
    then show ?thesis by (simp add: round32_0)
  next
    case 3
    then have "round32 (of_int (- a)) = of_int (- a)" using assms by (intro round32_of_int_pos) simp_all
    then show ?thesis by (simp add: round32_minus)
  qed
qed





lemma flt_gt_to_float:
  assumes "- (2 ^ 128) < round32 q"
  shows "flt_gt (to_float q) r \<longleftrightarrow> (2 ^ 128 \<le> round32 q \<or> r < round32 q)"
  using assms by (simp add: to_float_def Let_def)



lemma round32_3_4: "round32 (3 / 4) = 3 / 4"
  by code_simp

lemma round32_above: "round32 (12582911 / 16777214) = 12582913 / 16777216"
  by code_simp

lemma fdiv_exact:
  assumes "0 < b" "b \<le> 8388608" "0 \<le> a" "a \<le> b + 1"
  shows "flt_gt (fdiv (int_to_float a) (int_to_float b)) (3 / 4) \<longleftrightarrow> 3 * b < 4 * a"
proof -
  have fa: "int_to_float a = of_int a" and fb: "int_to_float b = of_int b"
    unfolding int_to_float_def using assms by (simp_all add: round32_of_int)
  have b0: "(0::rat) < of_int b" using assms(1) by simp
  show ?thesis
  proof (cases "3 * b < 4 * a")
    case False
    then have "(of_int (4 * a) :: rat) \<le> of_int (3 * b)" by (simp only: of_int_le_iff)
    then have "(of_int a :: rat) / of_int b \<le> 3 / 4" using b0 by (simp add: pos_divide_le_eq)
    then have "round32 (of_int a / of_int b) \<le> round32 (3 / 4)" by (rule round32_mono)
    then have le: "round32 (of_int a / of_int b) \<le> 3 / 4" by (simp add: round32_3_4)
    have "(0::rat) \<le> of_int a / of_int b" using assms(1,3) by simp
    then have ge: "0 \<le> round32 (of_int a / of_int b)" by (rule round32_nonneg)
    have "\<not> flt_gt (to_float (of_int a / of_int b)) (3 / 4)"
      using le ge by (subst flt_gt_to_float) simp_all
    then show ?thesis using False assms(1) by (simp add: fdiv_def fa fb)
  next
    case True
    have "12582911 * b \<le> 16777214 * a"
    proof (cases "b = 8388608")
      case True
      then show ?thesis using \<open>3 * b < 4 * a\<close> by simp
    next
      case False
      then show ?thesis using \<open>3 * b < 4 * a\<close> assms(2) by simp
    qed
    then have "(of_int (12582911 * b) :: rat) \<le> of_int (16777214 * a)" by (simp only: of_int_le_iff)
    then have "(12582911 / 16777214 :: rat) \<le> of_int a / of_int b"
      using b0 by (simp add: pos_le_divide_eq)
    then have "round32 (12582911 / 16777214) \<le> round32 (of_int a / of_int b)" by (rule round32_mono)
    then have ge: "12582913 / 16777216 \<le> round32 (of_int a / of_int b)" by (simp add: round32_above)
    have "flt_gt (to_float (of_int a / of_int b)) (3 / 4)"
      using ge by (subst flt_gt_to_float) simp_all
    then show ?thesis using True assms(1) by (simp add: fdiv_def fa fb)
  qed
qed

section \<open>Arithmetic of the machine integers and of the hash\<close>

lemma int32_id: "- 2147483648 \<le> x \<Longrightarrow> x < 2147483648 \<Longrightarrow> int32 x = x"
  by (simp add: int32_def)

lemma c_mod_nonneg: "0 \<le> a \<Longrightarrow> 0 < b \<Longrightarrow> c_mod a b = a mod b"
  by (cases "a = 0") (simp_all add: c_mod_def)

lemma schar_seven_bit: "(of_char c :: int) < 128 \<Longrightarrow> schar c = of_char c"
  by (simp add: schar_def)

lemma of_char_nonneg: "0 \<le> (of_char c :: int)"
  by (metis of_nat_0_le_iff of_nat_of_char)

lemma hash_step:
  assumes "0 \<le> h" "h < sz" "sz \<le> 58040096" "(of_char c :: int) < 128"
  shows "c_mod (int32 (int32 (h * HASH_MAGIC) + schar c)) sz = (h * 37 + of_char c) mod sz"
proof -
  have a: "h * 37 \<le> 2147483515" using assms by simp
  have b: "0 \<le> h * 37" using assms by simp
  have "int32 (h * HASH_MAGIC) = h * 37" using a b by (simp add: int32_id HASH_MAGIC_def)
  moreover have "int32 (h * 37 + of_char c) = h * 37 + of_char c"
    using a b assms(4) of_char_nonneg [of c] by (intro int32_id) simp_all
  ultimately show ?thesis using assms b of_char_nonneg [of c]
    by (simp add: schar_seven_bit c_mod_nonneg)
qed

lemma hash_for_seven_bit:
  assumes "seven_bit s" "0 \<le> h" "h < sz" "sz \<le> 58040096"
  shows "hash_for h s sz = Inr (foldl (\<lambda>acc c. (acc * 37 + of_char c) mod sz) h s)
         \<and> 0 \<le> foldl (\<lambda>acc c. (acc * 37 + of_char c) mod sz) h s
         \<and> foldl (\<lambda>acc c. (acc * 37 + of_char c) mod sz) h s < sz"
  using assms
proof (induction s arbitrary: h)
  case Nil
  then show ?case by simp
next
  case (Cons c cs)
  have c: "(of_char c :: int) < 128" and cs: "seven_bit cs"
    using Cons.prems(1) by (simp_all add: seven_bit_def)
  have sz: "0 < sz" using Cons.prems by simp
  let ?h = "(h * 37 + of_char c) mod sz"
  have "0 \<le> ?h" "?h < sz" using sz by simp_all
  from Cons.IH [OF cs this Cons.prems(4)]
  show ?case using sz hash_step [OF Cons.prems(2,3,4) c] by simp
qed


subsection \<open>probe arithmetic\<close>

lemma probe_less: "0 < n \<Longrightarrow> probe n h k < n"
  by (simp add: probe_def nat_less_iff)

lemma int_probe: "0 < n \<Longrightarrow> int (probe n h k) = (h + int k) mod int n"
  by (simp add: probe_def)

lemma probe_0: "0 \<le> h \<Longrightarrow> h < int n \<Longrightarrow> probe n h 0 = nat h"
  by (simp add: probe_def)

lemma probe_next:
  assumes "0 < n" "int n < 2147483648"
  shows "c_mod (int32 (int (probe n h k) + 1)) (int n) = int (probe n h (Suc k))"
proof -
  have r: "0 \<le> (h + int k) mod int n" "(h + int k) mod int n < int n"
    using assms by simp_all
  then have "int32 ((h + int k) mod int n + 1) = (h + int k) mod int n + 1"
    using assms by (intro int32_id) linarith+
  moreover have "((h + int k) mod int n + 1) mod int n = (h + int k + 1) mod int n"
    by (rule mod_add_left_eq)
  moreover have "h + int k + 1 = h + int (Suc k)"
    by simp
  ultimately show ?thesis using assms r
    by (simp only: int_probe c_mod_nonneg)
qed

lemma probe_not_start:
  assumes "0 < k" "k < n" "0 \<le> h" "h < int n"
  shows "int (probe n h k) \<noteq> h"
proof
  assume "int (probe n h k) = h"
  then have "(h + int k) mod int n = h mod int n" using assms by (simp add: int_probe)
  then have "int n dvd (h + int k) - h" by (simp add: mod_eq_dvd_iff)
  then have "int n dvd int k" by simp
  then have "n dvd k" by (simp only: int_dvd_int_iff)
  then show False using assms by (auto dest: dvd_imp_le)
qed

lemma dist_probe:
  assumes "k < n"
  shows "nat ((int (probe n h k) - h) mod int n) = k"
proof -
  have "((h + int k) mod int n - h) mod int n = (h + int k - h) mod int n"
    by (simp add: mod_diff_left_eq)
  then show ?thesis using assms by (simp add: int_probe)
qed

lemma probe_dist:
  assumes "i < n"
  shows "probe n h (nat ((int i - h) mod int n)) = i"
proof -
  have "(h + (int i - h) mod int n) mod int n = (h + (int i - h)) mod int n"
    by (simp add: mod_add_right_eq)
  then show ?thesis using assms by (simp add: probe_def)
qed

lemma dist_less: "0 < n \<Longrightarrow> nat ((int i - h) mod int n) < n"
  by (simp add: nat_less_iff)

section \<open>Slots, entries and the two loops\<close>

subsection \<open>entries\<close>

lemma entries_Nil: "entries [] = []"
  by (simp add: entries_def map_filter_simps)

lemma entries_Cons:
  "entries (w # d) = (case str w of None \<Rightarrow> entries d | Some s \<Rightarrow> (s, count_w w) # entries d)"
  by (simp add: entries_def map_filter_simps split: option.split)

lemma entries_append: "entries (xs @ ys) = entries xs @ entries ys"
  by (simp add: entries_def map_filter_def)

lemma length_entries_le: "length (entries d) \<le> length d"
  by (induction d) (auto simp: entries_Nil entries_Cons split: option.split)

lemma entries_replicate_empty: "entries (replicate n \<lparr>str = None, count_w = c\<rparr>) = []"
  by (induction n) (simp_all add: entries_Nil entries_Cons)

lemma in_set_entries:
  "(s, c) \<in> set (entries d) \<longleftrightarrow> (\<exists>i<length d. str (d ! i) = Some s \<and> count_w (d ! i) = c)"
proof -
  have "(s, c) \<in> set (entries d) \<longleftrightarrow> (\<exists>w\<in>set d. str w = Some s \<and> count_w w = c)"
    by (induction d) (auto simp: entries_Nil entries_Cons split: option.split)
  also have "\<dots> \<longleftrightarrow> (\<exists>i<length d. str (d ! i) = Some s \<and> count_w (d ! i) = c)"
    by (metis in_set_conv_nth)
  finally show ?thesis .
qed

lemma in_set_keys_of:
  "s \<in> set (keys_of d) \<longleftrightarrow> (\<exists>i<length d. str (d ! i) = Some s)"
proof -
  have "s \<in> set (keys_of d) \<longleftrightarrow> (\<exists>c. (s, c) \<in> set (entries d))"
    by (force simp: keys_of_def)
  then show ?thesis by (auto simp: in_set_entries)
qed

lemma some_slot_empty:
  assumes "length (entries d) < length d"
  shows "\<exists>i<length d. str (d ! i) = None"
proof (rule ccontr)
  assume "\<not> ?thesis"
  then have all: "\<forall>w\<in>set d. str w \<noteq> None" by (auto simp: in_set_conv_nth)
  have "(\<forall>w\<in>set d. str w \<noteq> None) \<Longrightarrow> length (entries d) = length d"
    by (induction d) (auto simp: entries_Nil entries_Cons split: option.split)
  with all assms show False by simp
qed

lemma mset_entries_store:
  assumes "i < length d" "str (d ! i) = None"
  shows "mset (entries (d[i := \<lparr>str = Some s, count_w = c\<rparr>])) = add_mset (s, c) (mset (entries d))"
proof -
  have d: "d = take i d @ d ! i # drop (Suc i) d"
    using assms(1) by (rule id_take_nth_drop)
  have "entries d = entries (take i d) @ entries (drop (Suc i) d)"
    by (subst d) (simp add: entries_append entries_Cons assms(2))
  moreover have "entries (d[i := \<lparr>str = Some s, count_w = c\<rparr>])
      = entries (take i d) @ (s, c) # entries (drop (Suc i) d)"
    using assms(1) by (simp add: upd_conv_take_nth_drop entries_append entries_Cons)
  ultimately show ?thesis by simp
qed

lemma mset_entries_count:
  assumes "i < length d" "str (d ! i) = Some s"
  shows "mset (entries (d[i := (d ! i)\<lparr>count_w := c\<rparr>]))
       = add_mset (s, c) (mset (entries d) - {#(s, count_w (d ! i))#})"
proof -
  have d: "d = take i d @ d ! i # drop (Suc i) d"
    using assms(1) by (rule id_take_nth_drop)
  have "entries d = entries (take i d) @ (s, count_w (d ! i)) # entries (drop (Suc i) d)"
    by (subst d) (simp add: entries_append entries_Cons assms(2))
  moreover have "entries (d[i := (d ! i)\<lparr>count_w := c\<rparr>])
      = entries (take i d) @ (s, c) # entries (drop (Suc i) d)"
    using assms by (simp add: upd_conv_take_nth_drop entries_append entries_Cons)
  ultimately show ?thesis by simp
qed

lemma mset_keys_of: "mset (keys_of d) = image_mset fst (mset (entries d))"
  by (simp add: keys_of_def)


subsection \<open>The first slot of a probe sequence with a property\<close>

lemma first_probe:
  assumes "0 < n" "i < n" "Q (d ! i)"
  shows "\<exists>K<n. Q (d ! probe n h K) \<and> (\<forall>j<K. \<not> Q (d ! probe n h j))"
proof -
  let ?P = "\<lambda>k. Q (d ! probe n h k)"
  let ?k0 = "nat ((int i - h) mod int n)"
  have k0: "?P ?k0" using assms by (simp add: probe_dist)
  have "?P (LEAST k. ?P k)" using k0 by (rule LeastI)
  moreover have "(LEAST k. ?P k) \<le> ?k0" using k0 by (rule Least_le)
  then have "(LEAST k. ?P k) < n" using dist_less [OF assms(1), of i h] by simp
  moreover have "\<forall>j<(LEAST k. ?P k). \<not> ?P j" using not_less_Least by blast
  ultimately show ?thesis by blast
qed

subsection \<open>The while loop of growHashTable\<close>

lemma while_finds:
  assumes n: "0 < n" "int n < 2147483648" "length nd = n"
  shows "(\<forall>j<k. str (nd ! probe n h (m + j)) \<noteq> None) \<Longrightarrow> str (nd ! probe n h (m + k)) = None
     \<Longrightarrow> growHashTable_while nd (int n) (int (probe n h m)) = Some (Inr (int (probe n h (m + k))))"
proof (induction k arbitrary: m)
  case 0
  have "probe n h m < n" using n by (simp add: probe_less)
  then show ?case using 0 n by (subst growHashTable_while.simps) simp
next
  case (Suc k)
  obtain t where occ: "str (nd ! probe n h m) = Some t"
    using Suc.prems(1) [rule_format, of 0] by auto
  have "growHashTable_while nd (int n) (int (probe n h (Suc m)))
      = Some (Inr (int (probe n h (Suc m + k))))"
  proof (rule Suc.IH)
    show "\<forall>j<k. str (nd ! probe n h (Suc m + j)) \<noteq> None"
    proof (intro allI impI)
      fix j assume "j < k"
      then show "str (nd ! probe n h (Suc m + j)) \<noteq> None"
        using Suc.prems(1) [rule_format, of "Suc j"] by simp
    qed
    show "str (nd ! probe n h (Suc m + k)) = None" using Suc.prems(2) by simp
  qed
  moreover have "probe n h m < n" using n by (simp add: probe_less)
  ultimately show ?case using n occ
    by (subst growHashTable_while.simps) (simp add: probe_next)
qed

lemma while_total:
  assumes n: "0 < n" "int n < 2147483648" "length nd = n"
    and h: "0 \<le> h" "h < int n"
    and free: "i < n" "str (nd ! i) = None"
  shows "\<exists>K<n. growHashTable_while nd (int n) h = Some (Inr (int (probe n h K)))
           \<and> str (nd ! probe n h K) = None \<and> (\<forall>j<K. str (nd ! probe n h j) \<noteq> None)"
proof -
  obtain K where K: "K < n" "str (nd ! probe n h K) = None"
      "\<forall>j<K. str (nd ! probe n h j) \<noteq> None"
    using first_probe [OF n(1) free(1), of "\<lambda>w. str w = None" nd h] free(2) by blast
  have "growHashTable_while nd (int n) (int (probe n h 0)) = Some (Inr (int (probe n h (0 + K))))"
    using K by (intro while_finds [OF n]) simp_all
  then show ?thesis using K h by (auto simp: probe_0)
qed

subsection \<open>The do-while loop of addString\<close>

lemma do_finds:
  assumes n: "0 < n" "int n < 2147483648" "length d = n"
    and ht: "dict ht = Some d" "size_ht ht = int n"
    and h: "0 \<le> h" "h < int n"
  shows "m + k < n \<Longrightarrow> (\<forall>j<k. \<exists>t. str (d ! probe n h (m + j)) = Some t \<and> t \<noteq> s) \<Longrightarrow>
     (str (d ! probe n h (m + k)) = None \<longrightarrow>
        addString_do ht s h (int (probe n h m)) =
          Some (Inr (ht\<lparr>dict := Some (d[probe n h (m + k) := \<lparr>str = Some s, count_w = 1\<rparr>]),
                       count_ht := int32 (count_ht ht + 1)\<rparr>))) \<and>
     (str (d ! probe n h (m + k)) = Some s \<longrightarrow>
        addString_do ht s h (int (probe n h m)) =
          Some (Inr (ht\<lparr>dict := Some (d[probe n h (m + k) :=
             (d ! probe n h (m + k))\<lparr>count_w := int32 (count_w (d ! probe n h (m + k)) + 1)\<rparr>])\<rparr>)))"
proof (induction k arbitrary: m)
  case 0
  have "probe n h m < n" using n by (simp add: probe_less)
  then show ?case using n ht
    by (auto simp: addString_do.simps [of ht s h "int (probe n h m)"])
next
  case (Suc k)
  obtain t where t: "str (d ! probe n h m) = Some t" "t \<noteq> s"
    using Suc.prems(2) [rule_format, of 0] by auto
  have ns: "int (probe n h (Suc m)) \<noteq> h"
    using Suc.prems(1) h by (intro probe_not_start) simp_all
  have "probe n h m < n" using n by (simp add: probe_less)
  then have unfold: "addString_do ht s h (int (probe n h m)) = addString_do ht s h (int (probe n h (Suc m)))"
    using n ht t ns by (subst addString_do.simps) (simp add: probe_next)
  have "Suc m + k < n" using Suc.prems(1) by simp
  moreover have "\<forall>j<k. \<exists>t. str (d ! probe n h (Suc m + j)) = Some t \<and> t \<noteq> s"
  proof (intro allI impI)
    fix j assume "j < k"
    then show "\<exists>t. str (d ! probe n h (Suc m + j)) = Some t \<and> t \<noteq> s"
      using Suc.prems(2) [rule_format, of "Suc j"] by simp
  qed
  ultimately show ?case using Suc.IH [of "Suc m"] unfold by simp
qed


subsection \<open>The probe chains\<close>

lemma chainedI:
  assumes "\<And>i t. i < length d \<Longrightarrow> str (d ! i) = Some t \<Longrightarrow>
      \<exists>h. hash t (int (length d)) = Inr h \<and> 0 \<le> h \<and> h < int (length d) \<and>
          (\<forall>j<nat ((int i - h) mod int (length d)). str (d ! probe (length d) h j) \<noteq> None)"
  shows "chained d"
  unfolding chained_def
proof
  fix i assume "i \<in> {..<length d}"
  then have i: "i < length d" by simp
  show "case str (d ! i) of None \<Rightarrow> True
        | Some t \<Rightarrow> (case hash t (int (length d)) of Inl e \<Rightarrow> False
            | Inr h \<Rightarrow> 0 \<le> h \<and> h < int (length d) \<and>
                (\<forall>j\<in>{..<nat ((int i - h) mod int (length d))}. str (d ! probe (length d) h j) \<noteq> None))"
  proof (cases "str (d ! i)")
    case None
    then show ?thesis by simp
  next
    case (Some t)
    from assms [OF i Some] obtain h where "hash t (int (length d)) = Inr h" "0 \<le> h"
      "h < int (length d)"
      "\<forall>j<nat ((int i - h) mod int (length d)). str (d ! probe (length d) h j) \<noteq> None"
      by blast
    then show ?thesis using Some by simp
  qed
qed

lemma chainedD:
  assumes "chained d" "i < length d" "str (d ! i) = Some t"
  shows "\<exists>h. hash t (int (length d)) = Inr h \<and> 0 \<le> h \<and> h < int (length d) \<and>
          (\<forall>j<nat ((int i - h) mod int (length d)). str (d ! probe (length d) h j) \<noteq> None)"
proof -
  from assms(1,2) have "case str (d ! i) of None \<Rightarrow> True
        | Some t \<Rightarrow> (case hash t (int (length d)) of Inl e \<Rightarrow> False
            | Inr h \<Rightarrow> 0 \<le> h \<and> h < int (length d) \<and>
                (\<forall>j\<in>{..<nat ((int i - h) mod int (length d))}. str (d ! probe (length d) h j) \<noteq> None))"
    unfolding chained_def by simp
  with assms(3) show ?thesis by (cases "hash t (int (length d))") auto
qed

lemma chained_replicate: "chained (replicate n \<lparr>str = None, count_w = c\<rparr>)"
  by (rule chainedI) simp

lemma chained_store:
  assumes ch: "chained d" and n: "length d = n" and K: "K < n"
    and h: "hash s (int n) = Inr h" "0 \<le> h" "h < int n"
    and occ: "\<forall>j<K. str (d ! probe n h j) \<noteq> None"
    and free: "str (d ! probe n h K) = None"
  shows "chained (d[probe n h K := \<lparr>str = Some s, count_w = c\<rparr>])"
proof (rule chainedI)
  let ?p = "probe n h K"
  let ?d = "d[?p := \<lparr>str = Some s, count_w = c\<rparr>]"
  have pos: "0 < n" using K by simp
  have p: "?p < n" using pos by (rule probe_less)
  have keep: "str (?d ! x) \<noteq> None" if "x < n" "str (d ! x) \<noteq> None" for x
    using that n by (cases "x = ?p") simp_all
  fix i t assume i: "i < length ?d" and t: "str (?d ! i) = Some t"
  have i': "i < n" using i n by simp
  show "\<exists>h. hash t (int (length ?d)) = Inr h \<and> 0 \<le> h \<and> h < int (length ?d) \<and>
          (\<forall>j<nat ((int i - h) mod int (length ?d)). str (?d ! probe (length ?d) h j) \<noteq> None)"
  proof (cases "i = ?p")
    case True
    then have "t = s" using t p n by simp
    moreover have "nat ((int i - h) mod int n) = K" using True K by (simp add: dist_probe)
    moreover have "\<forall>j<K. str (?d ! probe n h j) \<noteq> None"
      using occ keep probe_less [OF pos] by blast
    ultimately show ?thesis using h n by auto
  next
    case False
    then have "str (d ! i) = Some t" using t by simp
    from chainedD [OF ch _ this] i' n obtain h' where h': "hash t (int n) = Inr h'" "0 \<le> h'"
      "h' < int n" "\<forall>j<nat ((int i - h') mod int n). str (d ! probe n h' j) \<noteq> None"
      by auto
    have "\<forall>j<nat ((int i - h') mod int n). str (?d ! probe n h' j) \<noteq> None"
      using h'(4) keep probe_less [OF pos] by blast
    then show ?thesis using h' n by auto
  qed
qed


subsection \<open>What a store and a count do to the keys\<close>

lemma keys_of_store:
  assumes "i < length d" "str (d ! i) = None"
  shows "mset (keys_of (d[i := \<lparr>str = Some s, count_w = c\<rparr>])) = mset (s # keys_of d)"
  by (simp add: mset_keys_of mset_entries_store [OF assms])

lemma length_keys_of: "length (keys_of d) = length (entries d)"
  by (simp add: keys_of_def)

lemma store_facts:
  assumes "i < length d" "str (d ! i) = None"
  shows "length (entries (d[i := \<lparr>str = Some s, count_w = c\<rparr>])) = Suc (length (entries d))"
    and "set (keys_of (d[i := \<lparr>str = Some s, count_w = c\<rparr>])) = insert s (set (keys_of d))"
    and "distinct (keys_of (d[i := \<lparr>str = Some s, count_w = c\<rparr>]))
         \<longleftrightarrow> s \<notin> set (keys_of d) \<and> distinct (keys_of d)"
proof -
  let ?d = "d[i := \<lparr>str = Some s, count_w = c\<rparr>]"
  have m: "mset (keys_of ?d) = mset (s # keys_of d)" using assms by (rule keys_of_store)
  from mset_eq_length [OF m] show "length (entries ?d) = Suc (length (entries d))"
    by (simp add: length_keys_of)
  from mset_eq_setD [OF m] show "set (keys_of ?d) = insert s (set (keys_of d))" by simp
  from mset_eq_imp_distinct_iff [OF m]
  show "distinct (keys_of ?d) \<longleftrightarrow> s \<notin> set (keys_of d) \<and> distinct (keys_of d)" by simp
qed

lemma length_entries_filter: "length (entries d) = length (filter (\<lambda>w. str w \<noteq> None) d)"
  by (induction d) (auto simp: entries_Nil entries_Cons split: option.split)

lemma entries_less:
  assumes "i < length d" "str (d ! i) = None"
  shows "length (entries d) < length d"
proof -
  have "d ! i \<in> set d" using assms(1) by simp
  then have "length (filter (\<lambda>w. str w \<noteq> None) d) < length d"
    using assms(2) by (intro length_filter_less) simp_all
  then show ?thesis by (simp add: length_entries_filter)
qed

lemma table_invD:
  assumes "table_inv ht" "dict ht = Some d"
  shows "0 < size_ht ht" "int (length d) = size_ht ht" "count_ht ht = int (length (entries d))"
    "distinct (keys_of d)" "size_ht ht < 2147483648" "chained d"
  using assms by (simp_all add: table_inv_def)

lemma table_inv_dict: "table_inv ht \<Longrightarrow> \<exists>d. dict ht = Some d"
  by (cases "dict ht") (simp_all add: table_inv_def)

lemma do_inv:
  assumes inv: "table_inv ht" and d: "dict ht = Some d"
    and hs: "hash s (size_ht ht) = Inr h" "0 \<le> h" "h < size_ht ht"
    and avail: "i0 < length d" "str (d ! i0) = None \<or> str (d ! i0) = Some s"
  shows "\<exists>i<length d.
     (if s \<in> set (keys_of d)
      then str (d ! i) = Some s \<and>
        addString_do ht s h h = Some (Inr (ht\<lparr>dict := Some (d[i :=
          (d ! i)\<lparr>count_w := int32 (count_w (d ! i) + 1)\<rparr>])\<rparr>))
      else str (d ! i) = None \<and> chained (d[i := \<lparr>str = Some s, count_w = 1\<rparr>]) \<and>
        addString_do ht s h h = Some (Inr (ht\<lparr>dict := Some (d[i := \<lparr>str = Some s, count_w = 1\<rparr>]),
          count_ht := count_ht ht + 1\<rparr>)))"
proof -
  define n where "n = length d"
  note I = table_invD [OF inv d]
  have sz: "size_ht ht = int n" using I(2) by (simp add: n_def)
  have n: "0 < n" "int n < 2147483648" "length d = n"
    using I(1,5) sz by (simp_all add: n_def)
  have h: "hash s (int n) = Inr h" "0 \<le> h" "h < int n"
    using hs sz by simp_all
  let ?Q = "\<lambda>w. str w = None \<or> str w = Some s"
  have i0: "i0 < n" "?Q (d ! i0)" using avail n(3) by simp_all
  obtain K where K: "K < n" "?Q (d ! probe n h K)" "\<forall>j<K. \<not> ?Q (d ! probe n h j)"
    using first_probe [OF n(1) i0(1), of ?Q d h] i0(2) by blast
  let ?p = "probe n h K"
  have p: "?p < length d" using n by (simp add: probe_less)
  have before: "\<forall>j<K. \<exists>t. str (d ! probe n h (0 + j)) = Some t \<and> t \<noteq> s"
    using K(3) by auto
  have start: "int (probe n h 0) = h" using h by (simp add: probe_0)
  note run = do_finds [OF n d sz h(2,3), of 0 K s, simplified start, OF _ before, simplified]
  show ?thesis
  proof (cases "str (d ! ?p)")
    case None
    have "length (entries d) < length d" using p None by (rule entries_less)
    then have c32: "int32 (count_ht ht + 1) = count_ht ht + 1"
      using I(3) n(2,3) by (intro int32_id) simp_all
    have "s \<notin> set (keys_of d)"
    proof
      assume "s \<in> set (keys_of d)"
      then obtain i where i: "i < n" "str (d ! i) = Some s"
        using n(3) by (auto simp: in_set_keys_of)
      let ?k = "nat ((int i - h) mod int n)"
      from chainedD [OF I(6) _ i(2)] i(1) n(3) h(1)
      have ch: "\<forall>j<?k. str (d ! probe n h j) \<noteq> None" by auto
      have there: "probe n h ?k = i" using i(1) by (rule probe_dist)
      consider (lt) "?k < K" | (eq) "?k = K" | (gt) "K < ?k" by linarith
      then show False
      proof cases
        case lt
        then show ?thesis using K(3) there i(2) by auto
      next
        case eq
        then show ?thesis using there None i(2) by simp
      next
        case gt
        then show ?thesis using ch None by auto
      qed
    qed
    moreover have "chained (d[?p := \<lparr>str = Some s, count_w = 1\<rparr>])"
      using I(6) n(3) K(1) h _ None
    proof (rule chained_store)
      show "\<forall>j<K. str (d ! probe n h j) \<noteq> None" using K(3) by auto
    qed
    ultimately show ?thesis using run K(1) None p c32 by auto
  next
    case (Some t)
    then have t: "t = s" using K(2) by simp
    then have "s \<in> set (keys_of d)" using Some p by (auto simp: in_set_keys_of)
    then show ?thesis using run K(1) Some t p by auto
  qed
qed



subsection \<open>Growth\<close>

lemma grow_for_inv:
  assumes ht: "dict ht = Some d" "size_ht ht = int n" "length d = n"
    and N: "N = 2 * n" "int N < 2147483648" "0 < n"
    and hk: "\<forall>t\<in>set (keys_of d). \<exists>h. hash t (int N) = Inr h \<and> 0 \<le> h \<and> h < int N"
  shows "n - i = r \<Longrightarrow> i \<le> n \<Longrightarrow> length nd = N \<Longrightarrow> chained nd \<Longrightarrow> length (entries nd) \<le> i \<Longrightarrow>
    \<exists>nd'. growHashTable_for ht (int N) (Some nd) (int i) = Some (Inr (Some nd')) \<and>
       length nd' = N \<and> chained nd' \<and>
       mset (entries nd') = mset (entries nd) + mset (entries (drop i d))"
proof (induction r arbitrary: i nd)
  case 0
  then have "i = n" by simp
  then show ?case using 0 ht by (subst growHashTable_for.simps) (simp add: entries_Nil)
next
  case (Suc r)
  then have i: "i < n" by simp
  have dr: "drop i d = d ! i # drop (Suc i) d"
    using i ht(3) by (simp add: Cons_nth_drop_Suc)
  have next_i: "int i + 1 = int (Suc i)" by simp
  show ?case
  proof (cases "str (d ! i)")
    case None
    have "\<exists>nd'. growHashTable_for ht (int N) (Some nd) (int (Suc i)) = Some (Inr (Some nd')) \<and>
       length nd' = N \<and> chained nd' \<and>
       mset (entries nd') = mset (entries nd) + mset (entries (drop (Suc i) d))"
      using Suc.prems i by (intro Suc.IH) simp_all
    moreover have "growHashTable_for ht (int N) (Some nd) (int i)
        = growHashTable_for ht (int N) (Some nd) (int (Suc i))"
      using i ht None by (subst growHashTable_for.simps) (simp add: next_i del: of_nat_Suc)
    moreover have "entries (drop i d) = entries (drop (Suc i) d)"
      using None by (simp add: dr entries_Cons)
    ultimately show ?thesis by simp
  next
    case (Some t)
    have "t \<in> set (keys_of d)" using Some i ht(3) by (auto simp: in_set_keys_of)
    then obtain h where h: "hash t (int N) = Inr h" "0 \<le> h" "h < int N"
      using hk by blast
    have posN: "0 < N" "int N < 2147483648" using N by simp_all
    have "length (entries nd) < length nd" using Suc.prems i N by simp
    then obtain i0 where i0: "i0 < N" "str (nd ! i0) = None"
      using some_slot_empty Suc.prems(3) by blast
    obtain K where K: "K < N" "growHashTable_while nd (int N) h = Some (Inr (int (probe N h K)))"
        "str (nd ! probe N h K) = None" "\<forall>j<K. str (nd ! probe N h j) \<noteq> None"
      using while_total [OF posN Suc.prems(3) h(2,3) i0] by blast
    let ?p = "probe N h K"
    let ?nd = "nd[?p := \<lparr>str = Some t, count_w = count_w (d ! i)\<rparr>]"
    have p: "?p < length nd" using posN Suc.prems(3) by (simp add: probe_less)
    have ch: "chained ?nd"
      using Suc.prems(4) Suc.prems(3) K(1) h K(4) K(3) by (rule chained_store)
    have len: "length (entries ?nd) = Suc (length (entries nd))"
      using p K(3) by (rule store_facts)
    have "\<exists>nd'. growHashTable_for ht (int N) (Some ?nd) (int (Suc i)) = Some (Inr (Some nd')) \<and>
       length nd' = N \<and> chained nd' \<and>
       mset (entries nd') = mset (entries ?nd) + mset (entries (drop (Suc i) d))"
      using Suc.prems i ch len by (intro Suc.IH) simp_all
    moreover have "growHashTable_for ht (int N) (Some nd) (int i)
        = growHashTable_for ht (int N) (Some ?nd) (int (Suc i))"
      using i ht Some h(1) K(2)
      by (subst growHashTable_for.simps) (simp add: next_i del: of_nat_Suc)
    moreover have "mset (entries (drop i d)) = add_mset (t, count_w (d ! i)) (mset (entries (drop (Suc i) d)))"
      using Some by (simp add: dr entries_Cons)
    moreover have "mset (entries ?nd) = add_mset (t, count_w (d ! i)) (mset (entries nd))"
      using p K(3) by (rule mset_entries_store)
    ultimately show ?thesis by simp
  qed
qed

text \<open>A store with no entry: the loop moves nothing and returns the new store as it got it.\<close>

lemma growHashTable_for_empty:
  assumes "dict ht = Some d" "int (length d) = size_ht ht" "\<forall>w\<in>set d. str w = None"
  shows "nat (size_ht ht - i) = r \<Longrightarrow> 0 \<le> i \<Longrightarrow>
     growHashTable_for ht ns nd i = Some (Inr nd)"
proof (induction r arbitrary: i)
  case 0
  then show ?case by (subst growHashTable_for.simps) simp
next
  case (Suc r)
  then have i: "i < size_ht ht" by simp
  then have "str (d ! nat i) = None" using assms(2,3) Suc.prems(2) by (simp add: nat_less_iff)
  moreover have "growHashTable_for ht ns nd (i + 1) = Some (Inr nd)"
    using Suc.prems by (intro Suc.IH) simp_all
  ultimately show ?case using i assms(1,2) Suc.prems(2)
    by (subst growHashTable_for.simps) simp
qed

lemma growHashTable_inv:
  assumes ht: "dict ht = Some d" "int (length d) = size_ht ht"
    and cap: "2 * size_ht ht < 2147483648"
    and hk: "\<forall>t\<in>set (keys_of d). \<exists>h. hash t (2 * size_ht ht) = Inr h \<and> 0 \<le> h \<and> h < 2 * size_ht ht"
  shows "\<exists>d'. growHashTable True ht = Some (Inr (0, ht\<lparr>dict := Some d', size_ht := 2 * size_ht ht\<rparr>))
     \<and> int (length d') = 2 * size_ht ht \<and> chained d' \<and> mset (entries d') = mset (entries d)"
proof -
  define n where "n = length d"
  let ?N = "2 * n"
  let ?nd = "replicate ?N \<lparr>str = None, count_w = 0\<rparr>"
  have sz: "size_ht ht = int n" using ht by (simp add: n_def)
  have new_size: "int32 (int n * HASH_GROWTH_FACTOR) = 2 * int n"
    using sz cap by (simp add: HASH_GROWTH_FACTOR_def int32_id)
  have alloc: "calloc_Word True (2 * int n) = Some ?nd"
    using sz cap by (simp add: calloc_Word_def nat_mult_distrib)
  have "\<exists>d'. growHashTable_for ht (int ?N) (Some ?nd) 0 = Some (Inr (Some d')) \<and>
      length d' = ?N \<and> chained d' \<and> mset (entries d') = mset (entries d)"
  proof (cases "n = 0")
    case True
    then have "growHashTable_for ht (int ?N) (Some ?nd) 0 = Some (Inr (Some ?nd))"
      using sz by (subst growHashTable_for.simps) simp
    moreover have "d = []" using True by (simp add: n_def)
    moreover have "chained []" by (simp add: chained_def)
    ultimately show ?thesis using True by (simp add: entries_Nil)
  next
    case False
    then have pos: "0 < n" by simp
    have hk': "\<forall>t\<in>set (keys_of d). \<exists>h. hash t (int ?N) = Inr h \<and> 0 \<le> h \<and> h < int ?N"
      using hk sz by simp
    have capN: "int ?N < 2147483648" using cap sz by simp
    obtain d' where d': "growHashTable_for ht (int ?N) (Some ?nd) (int 0) = Some (Inr (Some d'))"
        "length d' = ?N" "chained d'"
        "mset (entries d') = mset (entries ?nd) + mset (entries (drop 0 d))"
      using grow_for_inv [OF ht(1) sz n_def [symmetric] refl capN pos hk', of 0 n ?nd]
        chained_replicate [of ?N 0]
      by (auto simp: entries_replicate_empty)
    then show ?thesis by (auto simp: entries_replicate_empty)
  qed
  then obtain d' where d': "growHashTable_for ht (int ?N) (Some ?nd) 0 = Some (Inr (Some d'))"
      "length d' = ?N" "chained d'" "mset (entries d') = mset (entries d)"
    by blast
  have "growHashTable True ht = Some (Inr (0, ht\<lparr>dict := Some d', size_ht := 2 * size_ht ht\<rparr>))"
    using d'(1) sz by (simp add: growHashTable_def Let_def new_size alloc)
  moreover have "int (length d') = 2 * size_ht ht" using d'(2) sz by simp
  ultimately show ?thesis using d'(3,4) by blast
qed


section \<open>One insertion, and a run of insertions\<close>

subsection \<open>The growth test\<close>



lemma load_factor_exact:
  assumes "0 < size_ht ht" "size_ht ht \<le> 8388608" "0 \<le> count_ht ht" "count_ht ht \<le> size_ht ht"
  shows "flt_gt (recalcLoadFactor (Some ht)) HASH_LOAD_FACTOR
     \<longleftrightarrow> 3 * size_ht ht < 4 * (count_ht ht + 1)"
proof -
  have "int32 (count_ht ht + 1) = count_ht ht + 1" using assms by (intro int32_id) simp_all
  moreover have "0 \<le> count_ht ht + 1" "count_ht ht + 1 \<le> size_ht ht + 1" using assms by simp_all
  ultimately show ?thesis using fdiv_exact [OF assms(1,2)]
    by (simp add: recalcLoadFactor_def HASH_LOAD_FACTOR_def)
qed



subsection \<open>One insertion\<close>

lemma addString_stay:
  assumes "\<not> flt_gt (recalcLoadFactor (Some ht)) HASH_LOAD_FACTOR" "hash s (size_ht ht) = Inr h"
  shows "addString mem (Some ht) (Some s) = addString_do ht s h h"
  using assms by (simp add: addString_def)

lemma addString_grown:
  assumes "flt_gt (recalcLoadFactor (Some ht)) HASH_LOAD_FACTOR"
    "growHashTable mem ht = Some (Inr (r, ht1))" "hash s (size_ht ht1) = Inr h"
  shows "addString mem (Some ht) (Some s) = addString_do ht1 s h h"
  using assms by (simp add: addString_def)

lemma table_inv_grown:
  assumes inv: "table_inv ht" and d: "dict ht = Some d"
    and d': "int (length d') = 2 * size_ht ht" "chained d'" "mset (entries d') = mset (entries d)"
    and cap: "2 * size_ht ht < 2147483648"
  shows "table_inv (ht\<lparr>dict := Some d', size_ht := 2 * size_ht ht\<rparr>)"
proof -
  note I = table_invD [OF inv d]
  have k: "mset (keys_of d') = mset (keys_of d)" using d'(3) by (simp add: mset_keys_of)
  have "length (entries d') = length (entries d)" using d'(3) by (rule mset_eq_length)
  moreover have "distinct (keys_of d')" using mset_eq_imp_distinct_iff [OF k] I(4) by simp
  ultimately show ?thesis using I d' cap by (simp add: table_inv_def)
qed

lemma count_le_size:
  assumes "table_inv ht"
  shows "0 \<le> count_ht ht" "count_ht ht \<le> size_ht ht"
proof -
  obtain d where d: "dict ht = Some d" using assms table_inv_dict by blast
  note I = table_invD [OF assms d]
  show "0 \<le> count_ht ht" using I(3) by simp
  show "count_ht ht \<le> size_ht ht" using I(2,3) length_entries_le [of d] by simp
qed








subsection \<open>A run of insertions\<close>



section \<open>What any completed call leaves\<close>


lemma table_inv_well_formed: "table_inv ht \<Longrightarrow> well_formed ht"
  by (cases "dict ht") (simp_all add: table_inv_def well_formed_def)
















subsection \<open>One slot for one string\<close>

lemma keys_of_append: "keys_of (xs @ ys) = keys_of xs @ keys_of ys"
  by (simp add: keys_of_def entries_append)

lemma distinct_keys_nth:
  assumes "distinct (keys_of d)" "i < length d" "j < length d"
    "str (d ! i) = Some s" "str (d ! j) = Some s"
  shows "i = j"
proof -
  have ne: False if "a < b" "b < length d" "str (d ! a) = Some s" "str (d ! b) = Some s" for a b
  proof -
    have d: "d = take b d @ d ! b # drop (Suc b) d"
      using that(2) by (rule id_take_nth_drop)
    have "distinct (keys_of (take b d) @ keys_of (d ! b # drop (Suc b) d))"
      using assms(1) by (subst (asm) d) (simp only: keys_of_append)
    then have disj: "set (keys_of (take b d)) \<inter> set (keys_of (d ! b # drop (Suc b) d)) = {}"
      by simp
    have "s \<in> set (keys_of (take b d))"
      unfolding in_set_keys_of using that by (intro exI [of _ a]) simp
    moreover have "s \<in> set (keys_of (d ! b # drop (Suc b) d))"
      unfolding in_set_keys_of using that by (intro exI [of _ 0]) simp
    ultimately show False using disj by blast
  qed
  show ?thesis
  proof (rule ccontr)
    assume "i \<noteq> j"
    then consider "i < j" | "j < i" by linarith
    then show False using ne assms by cases blast+
  qed
qed

lemma int32_length:
  assumes "n < 4294967296"
  shows "int32 (int n) = (if n < 2147483648 then int n else int n - 4294967296)"
proof (cases "n < 2147483648")
  case True
  then show ?thesis by (simp add: int32_id)
next
  case False
  then have "(int n + 2147483648) mod 4294967296 = int n + 2147483648 - 4294967296"
    using assms by (intro int_mod_pos_eq) simp_all
  then show ?thesis using False by (simp add: int32_def)
qed

lemma checkString_length:
  assumes "length s < 4294967296"
  shows "checkString (Some s) = (if 1 \<le> length s \<and> length s \<le> 64 then 0 else - 1)"
proof -
  have c: "checkString (Some s)
      = (if 1 \<le> int32 (int (length s)) \<and> int32 (int (length s)) \<le> 64 then 0 else - 1)"
    by (auto simp: checkString_def Let_def MIN_STRING_SIZE_def MAX_STRING_SIZE_def)
  have "(1 \<le> int32 (int (length s)) \<and> int32 (int (length s)) \<le> 64)
      \<longleftrightarrow> (1 \<le> length s \<and> length s \<le> 64)"
  proof (cases "length s < 2147483648")
    case True
    then have "int32 (int (length s)) = int (length s)" using int32_length [OF assms] by simp
    then show ?thesis by linarith
  next
    case False
    then have "int32 (int (length s)) = int (length s) - 4294967296"
      using int32_length [OF assms] by simp
    then show ?thesis using False assms by linarith
  qed
  then show ?thesis using c by simp
qed

section \<open>The runs of the driver, and longer ones\<close>


lemma run3: "addStrings table0 [''hello'', ''world'', ''hello'', ''world'', ''aaaaa''] = Some (Inr table3)"
  by code_simp




lemma inv3: "table_inv table3"
  by code_simp

lemma inv8: "table_inv table8"
  by code_simp

subsection \<open>Many distinct strings\<close>











subsection \<open>One string many times\<close>









subsection \<open>A table of 58040097 slots\<close>






section \<open>The properties of the specification\<close>







text \<open>
  C3, amended. The store of the table has \<open>size\<close> slots, \<open>2 * size\<close> is below \<open>2^31\<close>,
  \<open>hash\<close> gives for every string of the table an index of a store of \<open>2 * size\<close> slots,
  and \<open>calloc\<close> succeeds. Then \<open>growHashTable\<close> returns 0 and leaves the same table with a
  store of \<open>2 * size\<close> slots and the size doubled. The multiset of (string, count)
  entries is that of the old store, and the new store is chained: every entry was placed by
  hashing against the new size and probing to the first empty slot.
\<close>

theorem growHashTable_rehash:
  assumes "dict ht = Some d" "int (length d) = size_ht ht" "2 * size_ht ht < 2147483648"
    and "\<forall>i<length d. \<forall>t. str (d ! i) = Some t \<longrightarrow>
           (\<exists>h. hash t (2 * size_ht ht) = Inr h \<and> 0 \<le> h \<and> h < 2 * size_ht ht)"
  shows "\<exists>d'. growHashTable True ht
        = Some (Inr (0, ht\<lparr>dict := Some d', size_ht := 2 * size_ht ht\<rparr>)) \<and>
      int (length d') = 2 * size_ht ht \<and> mset (entries d') = mset (entries d) \<and> chained d'"
proof -
  have "\<forall>t\<in>set (keys_of d). \<exists>h. hash t (2 * size_ht ht) = Inr h \<and> 0 \<le> h \<and> h < 2 * size_ht ht"
    using assms(4) by (auto simp: in_set_keys_of)
  then show ?thesis using growHashTable_inv [OF assms(1,2,3)] by blast
qed

text \<open>The table of eight strings is such a table.\<close>

theorem growHashTable_rehash_witness:
  "\<exists>d'. growHashTable True table8
        = Some (Inr (0, table8\<lparr>dict := Some d', size_ht := 2 * size_ht table8\<rparr>)) \<and>
      int (length d') = 2 * size_ht table8 \<and>
      mset (entries d') = mset (entries (the (dict table8))) \<and> chained d'"
proof -
  have a: "dict table8 = Some (the (dict table8))"
    "int (length (the (dict table8))) = size_ht table8" "2 * size_ht table8 < 2147483648"
    by (simp_all add: table8_def)
  have k: "\<forall>t\<in>set (keys_of (the (dict table8))).
      (case hash t (2 * size_ht table8) of Inl e \<Rightarrow> False
       | Inr h \<Rightarrow> 0 \<le> h \<and> h < 2 * size_ht table8)"
    by code_simp
  have b: "\<forall>i<length (the (dict table8)). \<forall>t. str (the (dict table8) ! i) = Some t \<longrightarrow>
      (\<exists>h. hash t (2 * size_ht table8) = Inr h \<and> 0 \<le> h \<and> h < 2 * size_ht table8)"
  proof (intro allI impI)
    fix i t assume "i < length (the (dict table8))" "str (the (dict table8) ! i) = Some t"
    then have "t \<in> set (keys_of (the (dict table8)))" by (auto simp: in_set_keys_of)
    then have "case hash t (2 * size_ht table8) of Inl e \<Rightarrow> False
       | Inr h \<Rightarrow> 0 \<le> h \<and> h < 2 * size_ht table8"
      using k by blast
    then show "\<exists>h. hash t (2 * size_ht table8) = Inr h \<and> 0 \<le> h \<and> h < 2 * size_ht table8"
      by (cases "hash t (2 * size_ht table8)") simp_all
  qed
  show ?thesis by (rule growHashTable_rehash [OF a b])
qed

text \<open>
  For every table the statement fails. The string of the bytes 0x80 0x7F hashes to 0
  against 11 slots and is inserted; against 22 slots its hash is -11, and growing the table
  indexes the new store at -11. And the size is an \<open>int\<close>: the table that
  \<open>createHashTable\<close> makes with \<open>2^30\<close> slots has no double. Its new size wraps to
  \<open>-2^31\<close>, no store of that size exists, and \<open>growHashTable\<close> returns 0 with the store
  gone.
\<close>

theorem growHashTable_counterexample:
  "addStrings table0 [[CHR 0x80, CHR 0x7F]] = Some (Inr table_high) \<and>
   hash [CHR 0x80, CHR 0x7F] 22 = Inr (- 11) \<and>
   growHashTable True table_high = Some (Inl OutOfBounds) \<and>
   createHashTable True True 1073741824
     = Some \<lparr>dict = Some (replicate 1073741824 empty_slot), size_ht = 1073741824, count_ht = 0\<rparr> \<and>
   growHashTable True
       \<lparr>dict = Some (replicate 1073741824 empty_slot), size_ht = 1073741824, count_ht = 0\<rparr>
     = Some (Inr (0, \<lparr>dict = None, size_ht = - 2147483648, count_ht = 0\<rparr>))"
proof -
  let ?ht = "\<lparr>dict = Some (replicate 1073741824 empty_slot), size_ht = 1073741824, count_ht = 0\<rparr>"
  have high: "addStrings table0 [[CHR 0x80, CHR 0x7F]] = Some (Inr table_high)"
    "hash [CHR 0x80, CHR 0x7F] 22 = Inr (- 11)"
    "growHashTable True table_high = Some (Inl OutOfBounds)"
    by code_simp+
  have made: "createHashTable True True 1073741824 = Some ?ht"
    by (simp add: createHashTable_def calloc_Word_def)
  have "growHashTable_for ?ht (- 2147483648) None 0 = Some (Inr None)"
    by (rule growHashTable_for_empty [where d = "replicate 1073741824 empty_slot"]) simp_all
  then have "growHashTable True ?ht
      = Some (Inr (0, \<lparr>dict = None, size_ht = - 2147483648, count_ht = 0\<rparr>))"
    by (simp add: growHashTable_def Let_def int32_def HASH_GROWTH_FACTOR_def calloc_Word_def)
  then show ?thesis using high made by (intro conjI)
qed

text \<open>
  On strings of 7-bit characters and capacities from 1 to 58040096 \<open>hash\<close> is the rolling
  hash of the specification, over all the characters, and its value is an index of the
  table. At 58040096 slots the largest intermediate value, 58040095 * 37 + 127, is the last
  one below \<open>2^31\<close>.
\<close>

theorem hash_rolling:
  assumes "seven_bit s" "0 < sz" "sz \<le> 58040096"
  shows "hash s sz = Inr (rolling_hash s sz) \<and> 0 \<le> rolling_hash s sz \<and> rolling_hash s sz < sz"
  using hash_for_seven_bit [of s 0 sz] assms by (simp add: hash_def rolling_hash_def)

text \<open>
  C4. Not every hash is an index of the table. The byte 0xE9 is -23 as a \<open>char\<close>, and
  \<open>-23 % 11\<close> is -1: the hash of the one-character string against 11 slots. Against
  100000000 slots the hash of "aaaaaa" reaches 86843437 before the last character, and
  \<open>86843437 * 37 + 97\<close> is above \<open>2^31\<close>: the \<open>int\<close> wraps to -1081760030.
\<close>

theorem hash_high_byte:
  "hash [CHR 0xE9] 11 = Inr (- 1) \<and> hash ''aaaaaa'' 100000000 = Inr (- 81760030)"
  by code_simp





text \<open>
  C6. When \<open>calloc\<close> fails in \<open>growHashTable\<close> the table is not left intact and no failure is
  signalled: the first entry to move is written through the null pointer, and so ends the
  insertion that made the table grow. With no entry to move (one empty slot)
  \<open>growHashTable\<close> returns 0, the success value, and leaves the table with a null store and
  the size 2; \<open>addString\<close> goes on and reads the null store.
\<close>

theorem growHashTable_calloc_fails:
  "growHashTable False table8 = Some (Inl NullDeref) \<and>
   addString False (Some table8) (Some ''iiiii'') = Some (Inl NullDeref) \<and>
   growHashTable False \<lparr>dict = Some [empty_slot], size_ht = 1, count_ht = 0\<rparr>
     = Some (Inr (0, \<lparr>dict = None, size_ht = 2, count_ht = 0\<rparr>)) \<and>
   addString False (Some \<lparr>dict = Some [empty_slot], size_ht = 1, count_ht = 0\<rparr>) (Some ''a'')
     = Some (Inl NullDeref)"
  by code_simp

text \<open>
  C7, amended. The table satisfies the invariant and holds the string \<open>s\<close> in slot \<open>i\<close>.
  When the growth test of \<open>addString\<close>, \<open>(float)(count + 1) / size > 0.75\<close>, fails,
  \<open>addString\<close> leaves the same table with the count of slot \<open>i\<close> one higher (as an \<open>int\<close>):
  size, count and every other slot are as before. When the test holds, the table grows
  first, as for a new string. If then \<open>2 * size\<close> is below \<open>2^31\<close>, \<open>hash\<close> gives for every
  string of the table an index of a store of \<open>2 * size\<close> slots and \<open>calloc\<close> succeeds, the
  call returns: the size is doubled, the store has that many slots, the count of the table
  stays, and the entries are the old ones with the count of \<open>s\<close> one higher. For a table of
  at most \<open>2^23\<close> slots the test holds exactly when \<open>(count + 1) / size\<close> is above 0.75.
\<close>

theorem addString_present:
  assumes "table_inv ht" "dict ht = Some d" "i < length d" "str (d ! i) = Some s"
  shows "(if flt_gt (recalcLoadFactor (Some ht)) HASH_LOAD_FACTOR
      then 2 * size_ht ht < 2147483648 \<and>
           (\<forall>j<length d. \<forall>t. str (d ! j) = Some t \<longrightarrow>
              (\<exists>h. hash t (2 * size_ht ht) = Inr h \<and> 0 \<le> h \<and> h < 2 * size_ht ht)) \<longrightarrow>
           (\<exists>ht' d'. addString True (Some ht) (Some s) = Some (Inr ht') \<and>
              size_ht ht' = 2 * size_ht ht \<and> count_ht ht' = count_ht ht \<and> dict ht' = Some d' \<and>
              int (length d') = 2 * size_ht ht \<and>
              mset (entries d') = add_mset (s, int32 (count_w (d ! i) + 1))
                 (mset (entries d) - {#(s, count_w (d ! i))#}))
      else addString mem (Some ht) (Some s)
            = Some (Inr (ht\<lparr>dict := Some (d[i := (d ! i)\<lparr>count_w := int32 (count_w (d ! i) + 1)\<rparr>])\<rparr>))) \<and>
     (size_ht ht \<le> 8388608 \<longrightarrow>
        (flt_gt (recalcLoadFactor (Some ht)) HASH_LOAD_FACTOR
           \<longleftrightarrow> 3 * size_ht ht < 4 * (count_ht ht + 1)))"
proof -
  note I = table_invD [OF assms(1,2)]
  note C = count_le_size [OF assms(1)]
  let ?G = "flt_gt (recalcLoadFactor (Some ht)) HASH_LOAD_FACTOR"
  let ?c = "count_w (d ! i)"
  have only: "j = i" if "j < length d" "str (d ! j) = Some s" for j
    using distinct_keys_nth [OF I(4) that(1) assms(3) that(2) assms(4)] .
  have exact: "size_ht ht \<le> 8388608 \<longrightarrow> (?G \<longleftrightarrow> 3 * size_ht ht < 4 * (count_ht ht + 1))"
    using load_factor_exact [OF I(1) _ C] by blast
  have stay: "addString mem (Some ht) (Some s)
      = Some (Inr (ht\<lparr>dict := Some (d[i := (d ! i)\<lparr>count_w := int32 (?c + 1)\<rparr>])\<rparr>))"
    if no: "\<not> ?G"
  proof -
    obtain h where h: "hash s (int (length d)) = Inr h" "0 \<le> h" "h < int (length d)"
      using chainedD [OF I(6) assms(3,4)] by blast
    then have hs: "hash s (size_ht ht) = Inr h" "0 \<le> h" "h < size_ht ht" using I(2) by simp_all
    have key: "s \<in> set (keys_of d)" using assms(3,4) by (auto simp: in_set_keys_of)
    obtain j where j: "j < length d" "str (d ! j) = Some s"
      "addString_do ht s h h = Some (Inr (ht\<lparr>dict := Some (d[j :=
          (d ! j)\<lparr>count_w := int32 (count_w (d ! j) + 1)\<rparr>])\<rparr>))"
      using do_inv [OF assms(1,2) hs assms(3) disjI2 [OF assms(4)]] key by auto
    have "j = i" using j(1,2) by (rule only)
    then show ?thesis using j(3) addString_stay [OF no hs(1), of mem] by simp
  qed
  have grow: "\<exists>ht' d'. addString True (Some ht) (Some s) = Some (Inr ht') \<and>
              size_ht ht' = 2 * size_ht ht \<and> count_ht ht' = count_ht ht \<and> dict ht' = Some d' \<and>
              int (length d') = 2 * size_ht ht \<and>
              mset (entries d') = add_mset (s, int32 (?c + 1)) (mset (entries d) - {#(s, ?c)#})"
    if yes: ?G and cap: "2 * size_ht ht < 2147483648"
      and hk: "\<forall>j<length d. \<forall>t. str (d ! j) = Some t \<longrightarrow>
              (\<exists>h. hash t (2 * size_ht ht) = Inr h \<and> 0 \<le> h \<and> h < 2 * size_ht ht)"
  proof -
    have hk': "\<forall>t\<in>set (keys_of d). \<exists>h. hash t (2 * size_ht ht) = Inr h \<and> 0 \<le> h \<and> h < 2 * size_ht ht"
      using hk by (auto simp: in_set_keys_of)
    obtain d1 where d1: "growHashTable True ht = Some (Inr (0, ht\<lparr>dict := Some d1, size_ht := 2 * size_ht ht\<rparr>))"
       "int (length d1) = 2 * size_ht ht" "chained d1" "mset (entries d1) = mset (entries d)"
      using growHashTable_inv [OF assms(2) I(2) cap hk'] by blast
    let ?ht1 = "ht\<lparr>dict := Some d1, size_ht := 2 * size_ht ht\<rparr>"
    have inv1: "table_inv ?ht1" using assms(1,2) d1(2,3,4) cap by (rule table_inv_grown)
    have dict1: "dict ?ht1 = Some d1" by simp
    obtain h where h: "hash s (2 * size_ht ht) = Inr h" "0 \<le> h" "h < 2 * size_ht ht"
      using hk assms(3,4) by blast
    then have hs: "hash s (size_ht ?ht1) = Inr h" "0 \<le> h" "h < size_ht ?ht1" by simp_all
    have "(s, ?c) \<in> set (entries d)" using assms(3,4) by (auto simp: in_set_entries)
    then have "(s, ?c) \<in> set (entries d1)" using d1(4) by (metis mset_eq_setD)
    then obtain i1 where i1: "i1 < length d1" "str (d1 ! i1) = Some s"
      by (auto simp: in_set_entries)
    then have key1: "s \<in> set (keys_of d1)" by (auto simp: in_set_keys_of)
    obtain j where j: "j < length d1" "str (d1 ! j) = Some s"
      "addString_do ?ht1 s h h = Some (Inr (?ht1\<lparr>dict := Some (d1[j :=
          (d1 ! j)\<lparr>count_w := int32 (count_w (d1 ! j) + 1)\<rparr>])\<rparr>))"
      using do_inv [OF inv1 dict1 hs i1(1) disjI2 [OF i1(2)]] key1 by auto
    let ?d' = "d1[j := (d1 ! j)\<lparr>count_w := int32 (count_w (d1 ! j) + 1)\<rparr>]"
    have "(s, count_w (d1 ! j)) \<in> set (entries d1)" using j(1,2) by (auto simp: in_set_entries)
    then have "(s, count_w (d1 ! j)) \<in> set (entries d)" using d1(4) by (metis mset_eq_setD)
    then obtain j0 where "j0 < length d" "str (d ! j0) = Some s" "count_w (d ! j0) = count_w (d1 ! j)"
      by (auto simp: in_set_entries)
    then have c: "count_w (d1 ! j) = ?c" using only by auto
    have run: "addString True (Some ht) (Some s) = Some (Inr (?ht1\<lparr>dict := Some ?d'\<rparr>))"
      using addString_grown [OF yes d1(1) hs(1)] j(3) by simp
    have "mset (entries ?d') = add_mset (s, int32 (?c + 1)) (mset (entries d) - {#(s, ?c)#})"
      using mset_entries_count [OF j(1,2), of "int32 (count_w (d1 ! j) + 1)"] d1(4) c by simp
    moreover have "int (length ?d') = 2 * size_ht ht" using d1(2) by simp
    ultimately show ?thesis using run by simp
  qed
  show ?thesis using stay grow exact by simp
qed

text \<open>
  "hello" once more after the first five calls of the driver: slot 5 goes from 2 to 3. And
  "aaaaa" once more after eight strings: the table grows, and the entry of "aaaaa" goes from
  1 to 2.
\<close>

theorem addString_present_witness:
  "addString True (Some table3) (Some ''hello'')
     = Some (Inr (table3\<lparr>dict := Some ((the (dict table3))[5 :=
          (the (dict table3) ! 5)\<lparr>count_w := int32 (count_w (the (dict table3) ! 5) + 1)\<rparr>])\<rparr>)) \<and>
   (\<exists>ht' d'. addString True (Some table8) (Some ''aaaaa'') = Some (Inr ht') \<and>
      size_ht ht' = 2 * size_ht table8 \<and> count_ht ht' = count_ht table8 \<and> dict ht' = Some d' \<and>
      int (length d') = 2 * size_ht table8 \<and>
      mset (entries d') = add_mset (''aaaaa'', int32 (count_w (the (dict table8) ! 0) + 1))
         (mset (entries (the (dict table8))) - {#(''aaaaa'', count_w (the (dict table8) ! 0))#})) \<and>
   (flt_gt (recalcLoadFactor (Some table8)) HASH_LOAD_FACTOR
      \<longleftrightarrow> 3 * size_ht table8 < 4 * (count_ht table8 + 1))"
proof -
  have a: "dict table3 = Some (the (dict table3))" "5 < length (the (dict table3))"
    "str (the (dict table3) ! 5) = Some ''hello''"
    by code_simp+
  have b: "\<not> flt_gt (recalcLoadFactor (Some table3)) HASH_LOAD_FACTOR" by code_simp
  have c: "dict table8 = Some (the (dict table8))" "0 < length (the (dict table8))"
    "str (the (dict table8) ! 0) = Some ''aaaaa''"
    by code_simp+
  have g: "flt_gt (recalcLoadFactor (Some table8)) HASH_LOAD_FACTOR" by code_simp
  have cap: "2 * size_ht table8 < 2147483648" "size_ht table8 \<le> 8388608" by (simp_all add: table8_def)
  have k: "\<forall>t\<in>set (keys_of (the (dict table8))).
      (case hash t (2 * size_ht table8) of Inl e \<Rightarrow> False
       | Inr h \<Rightarrow> 0 \<le> h \<and> h < 2 * size_ht table8)"
    by code_simp
  have hk: "\<forall>j<length (the (dict table8)). \<forall>t. str (the (dict table8) ! j) = Some t \<longrightarrow>
      (\<exists>h. hash t (2 * size_ht table8) = Inr h \<and> 0 \<le> h \<and> h < 2 * size_ht table8)"
  proof (intro allI impI)
    fix j t assume "j < length (the (dict table8))" "str (the (dict table8) ! j) = Some t"
    then have "t \<in> set (keys_of (the (dict table8)))" by (auto simp: in_set_keys_of)
    then have "case hash t (2 * size_ht table8) of Inl e \<Rightarrow> False
       | Inr h \<Rightarrow> 0 \<le> h \<and> h < 2 * size_ht table8"
      using k by blast
    then show "\<exists>h. hash t (2 * size_ht table8) = Inr h \<and> 0 \<le> h \<and> h < 2 * size_ht table8"
      by (cases "hash t (2 * size_ht table8)") simp_all
  qed
  note T3 = addString_present [OF inv3 a, of True]
  note T8 = addString_present [OF inv8 c, of True]
  note stay = T3 [THEN conjunct1, unfolded if_not_P [OF b]]
  note grow = T8 [THEN conjunct1, unfolded if_P [OF g], THEN mp, OF conjI [OF cap(1) hk]]
  note exact = T8 [THEN conjunct2, THEN mp, OF cap(2)]
  show ?thesis using stay grow exact by (intro conjI)
qed

text \<open>
  The capacity does change on the update path: with eight strings in eleven slots, inserting
  "aaaaa" again grows the table to 22 slots and moves the entries. When \<open>calloc\<close> fails
  there, the call ends in a null dereference. And in the table that holds the string of the
  bytes 0x80 0x7F and seven more, which satisfies the invariant, inserting "aaaaa" again
  indexes the new store at -11, the hash of that string against 22 slots.
\<close>

theorem addString_present_grows_counterexample:
  "addStrings table0 [''aaaaa'', ''bbbbb'', ''ccccc'', ''ddddd'', ''eeeee'', ''fffff'', ''ggggg'', ''hhhhh'']
     = Some (Inr table8) \<and>
   addString True (Some table8) (Some ''aaaaa'') = Some (Inr table8_again) \<and>
   size_ht table8 = 11 \<and> size_ht table8_again = 22 \<and>
   addString False (Some table8) (Some ''aaaaa'') = Some (Inl NullDeref) \<and>
   addStrings table0 [[CHR 0x80, CHR 0x7F], ''aaaaa'', ''bbbbb'', ''ccccc'', ''ddddd'', ''eeeee'',
       ''fffff'', ''ggggg'']
     = Some (Inr table_high8) \<and>
   table_inv table_high8 \<and>
   addString True (Some table_high8) (Some ''aaaaa'') = Some (Inl OutOfBounds)"
  by code_simp

text \<open>
  C9. \<open>createLookupTable\<close> marks the first nine bytes of the array, whatever its size. The
  tenth character of a set of ten is not marked: the table is the one of the first nine. A
  set of two characters is read past its end. And a byte above 127 among the nine is
  marked past the 128 entries of the table.
\<close>

theorem createLookupTable_nine_bytes:
  "createLookupTable True '',*;.:([])!'' = createLookupTable True '',*;.:([])'' \<and>
   createLookupTable True '',;'' = Inl OutOfBounds \<and>
   createLookupTable True (CHR 0xE9 # '',*;.:([])'') = Inl OutOfBounds"
  by code_simp

text \<open>
  For the null string and for every string of fewer than \<open>2^32\<close> characters \<open>checkString\<close>
  is as the bounds \<open>MIN_STRING_SIZE = 1\<close> and \<open>MAX_STRING_SIZE = 64\<close> say: -1 for the null
  string, 0 for a length from 1 to 64 and -1 for every other length.
\<close>

theorem checkString_range:
  assumes "length s < 4294967296"
  shows "checkString None = - 1 \<and>
     checkString (Some s) = (if 1 \<le> length s \<and> length s \<le> 64 then 0 else - 1)"
  using checkString_length [OF assms] by (simp add: checkString_def)

text \<open>
  C10. Not every other length is rejected. \<open>const int SIZE = strlen(str)\<close> keeps the low
  32 bits of the length: for a string of \<open>2^32 + 1\<close> characters \<open>SIZE\<close> is 1, and
  \<open>checkString\<close> returns 0.
\<close>

theorem checkString_truncates:
  "length (replicate 4294967297 (CHR ''a'')) = 4294967297 \<and>
   checkString (Some (replicate 4294967297 (CHR ''a''))) = 0"
  by (simp add: checkString_def int32_def MIN_STRING_SIZE_def MAX_STRING_SIZE_def)

end
